theory Spec2Isabelle
  imports Main
begin

unbundle bit_operations_syntax

section \<open>Memory model\<close>

text \<open>
  The functions of \<^verbatim>\<open>core/ngx_buf.c\<close> and \<^verbatim>\<open>core/ngx_list.c\<close> work on
  heap objects through pointers.  A pointer is an optional address (\<open>None\<close> is
  \<^verbatim>\<open>NULL\<close>), and there is one store per object type, a total function from
  addresses to field records: memory that was never written holds whatever the store
  holds there, as uninitialised memory does.  Byte pointers (\<^verbatim>\<open>u_char *\<close>) are
  only compared and added to, never dereferenced, so they are plain integers, as are the
  \<^verbatim>\<open>off_t\<close> file offsets.  The page rounding of \<^verbatim>\<open>ngx_chain_coalesce_file\<close>
  can leave the 64 bits of \<^verbatim>\<open>off_t\<close> although its operands are offsets of a file; its
  result is reduced to 64 bits with \<open>off_t_wrap\<close>.  Elsewhere offsets are added and
  subtracted as integers.

  A function that dereferences a pointer returns \<open>None\<close> where the pointer is
  \<^verbatim>\<open>NULL\<close>; a loop that walks a chain is a \<^theory_text>\<open>partial_function\<close> in the
  option monad, so a walk that never ends has the value \<open>None\<close> too.
\<close>

type_synonym addr = nat

text \<open>
  Modelled from the spec: the structure declarations of \<^verbatim>\<open>core/ngx_buf.h\<close>,
  \<^verbatim>\<open>core/ngx_file.h\<close> and \<^verbatim>\<open>core/ngx_palloc.h\<close> are not among the sources.
  The records have the fields that the functions of \<^verbatim>\<open>ngx_buf.c\<close> read and write
  and the flags that section 3 of the spec lists.  The fields \<^verbatim>\<open>last\<close>,
  \<^verbatim>\<open>file\<close>, \<^verbatim>\<open>next\<close> and \<^verbatim>\<open>end\<close> are written \<open>last'\<close>, \<open>file'\<close>,
  \<open>next'\<close> and \<open>end'\<close>; the tag, an opaque pointer that is only compared, is a number.
\<close>

record ngx_file_t =
  fd :: int

record ngx_buf_t =
  pos :: int
  last' :: int
  file_pos :: int
  file_last :: int
  start :: int
  end' :: int
  tag :: nat
  file' :: "addr option"
  shadow :: "addr option"
  temporary :: bool
  memory :: bool
  mmap :: bool
  recycled :: bool
  in_file :: bool
  flush :: bool
  sync :: bool
  last_buf :: bool
  last_in_chain :: bool

record ngx_chain_t =
  buf :: "addr option"
  next' :: "addr option"

text \<open>
  Modelled from the spec: \<^verbatim>\<open>ngx_pool_t\<close> and \<^verbatim>\<open>ngx_palloc\<close>
  (\<^verbatim>\<open>core/ngx_palloc.c\<close>) are not among the sources.  The spec has the arena as a
  bump-style allocator with no individual free, \<^verbatim>\<open>allocate(byte_count) -> raw_memory | failure\<close>,
  that also carries the pool-scoped free list of chain links (\<^verbatim>\<open>pool->chain\<close>).
  \<open>d_last\<close> is the first unallocated address and \<open>d_end\<close> the end of the arena.
\<close>

record ngx_pool_t =
  chain :: "addr option"
  d_last :: nat
  d_end :: nat

definition ngx_palloc :: "ngx_pool_t \<Rightarrow> nat \<Rightarrow> addr option \<times> ngx_pool_t" where
  "ngx_palloc p n =
     (if d_last p + n \<le> d_end p then (Some (d_last p), p\<lparr>d_last := d_last p + n\<rparr>)
      else (None, p))"

text \<open>
  Modelled from the spec: the structure declarations of \<^verbatim>\<open>core/ngx_list.h\<close> are not
  among the sources.  A Part has its element block, its used-count and the link to the next
  Part; the list header has the tail pointer, the first Part (the address of the embedded
  \<^verbatim>\<open>l->part\<close>), the element size and the per-Part capacity.  The fields
  \<^verbatim>\<open>next\<close>, \<^verbatim>\<open>last\<close> and \<^verbatim>\<open>size\<close> are written \<open>next_p\<close>, \<open>last_p\<close> and
  \<open>size_l\<close>.
\<close>

record ngx_list_part_t =
  elts :: "addr option"
  nelts :: nat
  next_p :: "addr option"

record ngx_list_t =
  last_p :: "addr option"
  part :: addr
  size_l :: nat
  nalloc :: nat

record mem =
  pool :: ngx_pool_t
  chains :: "addr \<Rightarrow> ngx_chain_t"
  bufs :: "addr \<Rightarrow> ngx_buf_t"
  files :: "addr \<Rightarrow> ngx_file_t"
  parts :: "addr \<Rightarrow> ngx_list_part_t"

text \<open>The object sizes of an LP64 build; only that they are positive matters below.\<close>

definition sizeof_ngx_chain_t :: nat where
  "sizeof_ngx_chain_t = 16"

definition sizeof_ngx_buf_t :: nat where
  "sizeof_ngx_buf_t = 80"

definition sizeof_ngx_list_part_t :: nat where
  "sizeof_ngx_list_part_t = 24"

text \<open>
  Modelled from the spec: the macro \<^verbatim>\<open>ngx_calloc_buf\<close> (\<^verbatim>\<open>core/ngx_buf.h\<close>) is
  not among the sources.  It takes a buffer header from the arena with every field cleared,
  as the comments in \<^verbatim>\<open>ngx_create_temp_buf\<close> list.
\<close>

definition zero_buf :: ngx_buf_t where
  "zero_buf = \<lparr>pos = 0, last' = 0, file_pos = 0, file_last = 0, start = 0, end' = 0,
     tag = 0, file' = None, shadow = None, temporary = False, memory = False, mmap = False,
     recycled = False, in_file = False, flush = False, sync = False, last_buf = False,
     last_in_chain = False\<rparr>"

definition ngx_calloc_buf :: "mem \<Rightarrow> addr option \<times> mem" where
  "ngx_calloc_buf s =
     (case ngx_palloc (pool s) sizeof_ngx_buf_t of
        (None, p) \<Rightarrow> (None, s\<lparr>pool := p\<rparr>)
      | (Some b, p) \<Rightarrow> (Some b, s\<lparr>pool := p, bufs := (bufs s)(b := zero_buf)\<rparr>))"

text \<open>
  Modelled from the spec: the macro \<^verbatim>\<open>ngx_free_chain\<close> (\<^verbatim>\<open>core/ngx_buf.h\<close>) is
  not among the sources.  It returns a link to the pool-scoped free list, at the head,
  where \<^verbatim>\<open>ngx_alloc_chain_link\<close> takes links from.
\<close>

definition ngx_free_chain :: "mem \<Rightarrow> addr \<Rightarrow> mem" where
  "ngx_free_chain s cl =
     s\<lparr>chains := (chains s)(cl := (chains s cl)\<lparr>next' := chain (pool s)\<rparr>),
       pool := (pool s)\<lparr>chain := Some cl\<rparr>\<rparr>"

section \<open>Chain links (\<^verbatim>\<open>core/ngx_buf.c\<close>)\<close>

subsection \<open>\<^verbatim>\<open>ngx_alloc_chain_link\<close>\<close>

definition ngx_alloc_chain_link :: "mem \<Rightarrow> addr option \<times> mem" where
  "ngx_alloc_chain_link s =
     (case chain (pool s) of
        Some cl \<Rightarrow> (Some cl, s\<lparr>pool := (pool s)\<lparr>chain := next' (chains s cl)\<rparr>\<rparr>)
      | None \<Rightarrow>
          (case ngx_palloc (pool s) sizeof_ngx_chain_t of
             (None, p) \<Rightarrow> (None, s\<lparr>pool := p\<rparr>)
           | (Some cl, p) \<Rightarrow> (Some cl, s\<lparr>pool := p\<rparr>)))"

subsection \<open>\<^verbatim>\<open>ngx_chain_get_free_buf\<close>\<close>

text \<open>
  The caller's variable \<^verbatim>\<open>*free\<close> is passed in and returned: the result is the
  returned link, the new value of \<^verbatim>\<open>*free\<close> and the memory.
\<close>

definition ngx_chain_get_free_buf :: "mem \<Rightarrow> addr option \<Rightarrow> addr option \<times> addr option \<times> mem" where
  "ngx_chain_get_free_buf s free =
     (case free of
        Some cl \<Rightarrow>
          (Some cl, next' (chains s cl),
           s\<lparr>chains := (chains s)(cl := (chains s cl)\<lparr>next' := None\<rparr>)\<rparr>)
      | None \<Rightarrow>
          (case ngx_alloc_chain_link s of
             (None, s1) \<Rightarrow> (None, free, s1)
           | (Some cl, s1) \<Rightarrow>
               (case ngx_calloc_buf s1 of
                  (None, s2) \<Rightarrow>
                    (None, free, s2\<lparr>chains := (chains s2)(cl := (chains s2 cl)\<lparr>buf := None\<rparr>)\<rparr>)
                | (Some b, s2) \<Rightarrow>
                    (Some cl, free,
                     s2\<lparr>chains := (chains s2)(cl := (chains s2 cl)\<lparr>buf := Some b, next' := None\<rparr>)\<rparr>))))"

subsection \<open>\<^verbatim>\<open>ngx_chain_add_copy\<close>\<close>

text \<open>
  Modelled from the spec: the return codes \<^verbatim>\<open>NGX_OK\<close> and \<^verbatim>\<open>NGX_ERROR\<close>
  (\<^verbatim>\<open>core/ngx_core.h\<close>) are not among the sources; the spec has one error kind, reported
  as a failure result.
\<close>

definition NGX_OK :: int where
  "NGX_OK = 0"

definition NGX_ERROR :: int where
  "NGX_ERROR = - 1"

text \<open>
  The cursor \<^verbatim>\<open>ngx_chain_t **ll\<close> points either at the caller's variable
  \<^verbatim>\<open>*chain\<close> or at the \<^verbatim>\<open>next\<close> field of a link.  \<open>store_ll\<close> is the
  assignment \<^verbatim>\<open>*ll = v\<close> on the pair of that variable and the memory.
\<close>

datatype ngx_chain_ref = Chain_var | Next_of addr

definition store_ll :: "ngx_chain_ref \<Rightarrow> addr option \<Rightarrow> addr option \<times> mem \<Rightarrow> addr option \<times> mem" where
  "store_ll ll v cs =
     (case ll of
        Chain_var \<Rightarrow> (v, snd cs)
      | Next_of a \<Rightarrow>
          (fst cs, (snd cs)\<lparr>chains := (chains (snd cs))(a := (chains (snd cs) a)\<lparr>next' := v\<rparr>)\<rparr>))"

text \<open>The first loop: \<^verbatim>\<open>for (cl = *chain; cl; cl = cl->next) { ll = &cl->next; }\<close>\<close>

partial_function (option) add_copy_end :: "mem \<Rightarrow> ngx_chain_ref \<Rightarrow> addr option \<Rightarrow> ngx_chain_ref option" where
  "add_copy_end s ll cl =
     (case cl of
        None \<Rightarrow> Some ll
      | Some a \<Rightarrow> add_copy_end s (Next_of a) (next' (chains s a)))"

text \<open>The second loop: \<^verbatim>\<open>while (in) { ... }\<close>, up to the return.\<close>

partial_function (option) add_copy_loop ::
  "mem \<Rightarrow> addr option \<Rightarrow> addr option \<Rightarrow> ngx_chain_ref \<Rightarrow> (int \<times> addr option \<times> mem) option" where
  "add_copy_loop s in' chain_v ll =
     (case in' of
        None \<Rightarrow> Some (NGX_OK, store_ll ll None (chain_v, s))
      | Some i \<Rightarrow>
          (let r = ngx_alloc_chain_link s; s1 = snd r
           in case fst r of
                None \<Rightarrow> Some (NGX_ERROR, store_ll ll None (chain_v, s1))
              | Some cl \<Rightarrow>
                  (let s2 = s1\<lparr>chains := (chains s1)(cl := (chains s1 cl)\<lparr>buf := buf (chains s1 i)\<rparr>)\<rparr>;
                       cs = store_ll ll (Some cl) (chain_v, s2)
                   in add_copy_loop (snd cs) (next' (chains (snd cs) i)) (fst cs) (Next_of cl))))"

text \<open>The result is the return code, the new value of \<^verbatim>\<open>*chain\<close> and the memory.\<close>

definition ngx_chain_add_copy :: "mem \<Rightarrow> addr option \<Rightarrow> addr option \<Rightarrow> (int \<times> addr option \<times> mem) option" where
  "ngx_chain_add_copy s chain_v in' =
     (case add_copy_end s Chain_var chain_v of
        None \<Rightarrow> None
      | Some ll \<Rightarrow> add_copy_loop s in' chain_v ll)"

subsection \<open>\<^verbatim>\<open>ngx_chain_update_chains\<close>\<close>

text \<open>
  The macro \<^verbatim>\<open>ngx_buf_size\<close> (\<^verbatim>\<open>core/ngx_buf.h\<close>) is not among the sources: the
  function takes it as the parameter \<open>buf_size\<close>.

  The walk to the last link of \<^verbatim>\<open>*busy\<close>:
  \<^verbatim>\<open>for (cl = *busy; cl->next; cl = cl->next) { /* void */ }\<close>
\<close>

partial_function (option) update_chains_last :: "mem \<Rightarrow> addr \<Rightarrow> addr option" where
  "update_chains_last s cl =
     (case next' (chains s cl) of
        None \<Rightarrow> Some cl
      | Some n \<Rightarrow> update_chains_last s n)"

text \<open>
  The loop \<^verbatim>\<open>while (*busy) { ... }\<close> on the variables \<^verbatim>\<open>*busy\<close> and
  \<^verbatim>\<open>*free\<close> and the memory; it gives the new \<^verbatim>\<open>*free\<close>, the new
  \<^verbatim>\<open>*busy\<close> and the memory.
\<close>

partial_function (option) update_chains_loop ::
  "(ngx_buf_t \<Rightarrow> int) \<Rightarrow> nat \<Rightarrow> mem \<Rightarrow> addr option \<Rightarrow> addr option \<Rightarrow> (addr option \<times> addr option \<times> mem) option" where
  "update_chains_loop buf_size tg s busy free =
     (case busy of
        None \<Rightarrow> Some (free, busy, s)
      | Some cl \<Rightarrow>
          (case buf (chains s cl) of
             None \<Rightarrow> None
           | Some b \<Rightarrow>
               if buf_size (bufs s b) \<noteq> 0 then Some (free, busy, s)
               else if tag (bufs s b) \<noteq> tg then
                 update_chains_loop buf_size tg (ngx_free_chain s cl) (next' (chains s cl)) free
               else
                 (let s1 = s\<lparr>bufs := (bufs s)(b := (bufs s b)\<lparr>pos := start (bufs s b)\<rparr>)\<rparr>;
                      s2 = s1\<lparr>bufs := (bufs s1)(b := (bufs s1 b)\<lparr>last' := start (bufs s1 b)\<rparr>)\<rparr>;
                      busy1 = next' (chains s2 cl);
                      s3 = s2\<lparr>chains := (chains s2)(cl := (chains s2 cl)\<lparr>next' := free\<rparr>)\<rparr>
                  in update_chains_loop buf_size tg s3 busy1 (Some cl))))"

text \<open>
  The result is the new values of \<^verbatim>\<open>*free\<close>, \<^verbatim>\<open>*busy\<close> and \<^verbatim>\<open>*out\<close> and
  the memory.
\<close>

definition update_chains_fold :: "mem \<Rightarrow> addr option \<Rightarrow> addr option \<Rightarrow> (addr option \<times> addr option \<times> mem) option" where
  "update_chains_fold s busy out =
     (case out of
        None \<Rightarrow> Some (busy, out, s)
      | Some _ \<Rightarrow>
          (case busy of
             None \<Rightarrow> Some (out, None, s)
           | Some b \<Rightarrow>
               (case update_chains_last s b of
                  None \<Rightarrow> None
                | Some cl \<Rightarrow>
                    Some (busy, None, s\<lparr>chains := (chains s)(cl := (chains s cl)\<lparr>next' := out\<rparr>)\<rparr>))))"

definition ngx_chain_update_chains ::
  "(ngx_buf_t \<Rightarrow> int) \<Rightarrow> mem \<Rightarrow> addr option \<Rightarrow> addr option \<Rightarrow> addr option \<Rightarrow> nat
     \<Rightarrow> (addr option \<times> addr option \<times> addr option \<times> mem) option" where
  "ngx_chain_update_chains buf_size s free busy out tg =
     (case update_chains_fold s busy out of
        None \<Rightarrow> None
      | Some (busy1, out1, s1) \<Rightarrow>
          (case update_chains_loop buf_size tg s1 busy1 free of
             None \<Rightarrow> None
           | Some (free2, busy2, s2) \<Rightarrow> Some (free2, busy2, out1, s2)))"

subsection \<open>\<^verbatim>\<open>ngx_chain_coalesce_file\<close>\<close>

text \<open>
  \<open>off_t_wrap\<close> is the value that the 64 bits of an integer have as an \<^verbatim>\<open>off_t\<close>, a
  signed 64-bit integer in two's complement.  In the truncating branch the sum
  \<^verbatim>\<open>file_pos + size + ngx_pagesize - 1\<close> and its masking are 64-bit operations whose
  result is stored in the \<^verbatim>\<open>off_t\<close> variable \<^verbatim>\<open>aligned\<close>; for a range that ends
  within a page of \<open>2^63\<close> the rounded end does not fit and wraps to a negative offset.
  So \<^verbatim>\<open>aligned\<close> and the two values computed from it, \<^verbatim>\<open>size\<close> and
  \<^verbatim>\<open>total\<close>, are reduced with \<open>off_t_wrap\<close>.  The other sums and differences
  stay within \<^verbatim>\<open>off_t\<close> for a non-negative limit and ranges of non-negative offsets
  with \<^verbatim>\<open>file_pos <= file_last\<close>.
\<close>

definition off_t_wrap :: "int \<Rightarrow> int" where
  "off_t_wrap x = (x + 2 ^ 63) mod 2 ^ 64 - 2 ^ 63"

text \<open>
  The global \<^verbatim>\<open>ngx_pagesize\<close> is not among the sources: it is the parameter
  \<open>pagesize\<close>.  \<open>coalesce_loop\<close> is the \<^verbatim>\<open>do { ... } while (...)\<close> loop from the
  top of its body, with the variables \<^verbatim>\<open>fd\<close>, \<^verbatim>\<open>total\<close> and \<^verbatim>\<open>cl\<close> as
  \<open>fd0\<close>, \<open>total'\<close> and \<open>cl\<close>; it gives the returned total and the new value of
  \<^verbatim>\<open>*in\<close>.  The first dereference \<^verbatim>\<open>cl->buf->file->fd\<close> is in
  \<open>ngx_chain_coalesce_file\<close>.
\<close>

partial_function (option) coalesce_loop ::
  "int \<Rightarrow> mem \<Rightarrow> int \<Rightarrow> int \<Rightarrow> int \<Rightarrow> addr \<Rightarrow> (int \<times> addr option) option" where
  "coalesce_loop pagesize s limit fd0 total' cl =
     (case buf (chains s cl) of
        None \<Rightarrow> None
      | Some b \<Rightarrow>
          (let size' = file_last (bufs s b) - file_pos (bufs s b) in
           if size' > limit - total' then
             (let size1 = limit - total';
                  aligned = off_t_wrap ((file_pos (bufs s b) + size1 + pagesize - 1)
                                          AND NOT (pagesize - 1));
                  size2 = (if aligned \<le> file_last (bufs s b)
                           then off_t_wrap (aligned - file_pos (bufs s b))
                           else size1)
              in Some (off_t_wrap (total' + size2), Some cl))
           else
             (let total1 = total' + size';
                  fprev = file_pos (bufs s b) + size'
              in case next' (chains s cl) of
                   None \<Rightarrow> Some (total1, None)
                 | Some n \<Rightarrow>
                     (case buf (chains s n) of
                        None \<Rightarrow> None
                      | Some nb \<Rightarrow>
                          if in_file (bufs s nb) \<and> total1 < limit then
                            (case file' (bufs s nb) of
                               None \<Rightarrow> None
                             | Some f \<Rightarrow>
                                 if fd0 = fd (files s f) \<and> fprev = file_pos (bufs s nb)
                                 then coalesce_loop pagesize s limit fd0 total1 n
                                 else Some (total1, Some n))
                          else Some (total1, Some n)))))"

definition ngx_chain_coalesce_file :: "int \<Rightarrow> mem \<Rightarrow> addr option \<Rightarrow> int \<Rightarrow> (int \<times> addr option) option" where
  "ngx_chain_coalesce_file pagesize s in' limit =
     (case in' of
        None \<Rightarrow> None
      | Some cl \<Rightarrow>
          (case buf (chains s cl) of
             None \<Rightarrow> None
           | Some b \<Rightarrow>
               (case file' (bufs s b) of
                  None \<Rightarrow> None
                | Some f \<Rightarrow> coalesce_loop pagesize s limit (fd (files s f)) 0 cl)))"

subsection \<open>\<^verbatim>\<open>ngx_chain_update_sent\<close>\<close>

text \<open>
  The macros \<^verbatim>\<open>ngx_buf_special\<close>, \<^verbatim>\<open>ngx_buf_in_memory\<close> and \<^verbatim>\<open>ngx_buf_size\<close>
  (\<^verbatim>\<open>core/ngx_buf.h\<close>) are not among the sources: they are the parameters
  \<open>buf_special\<close>, \<open>buf_in_memory\<close> and \<open>buf_size\<close>.  The result is the returned
  link and the memory.
\<close>

partial_function (option) ngx_chain_update_sent ::
  "(ngx_buf_t \<Rightarrow> bool) \<Rightarrow> (ngx_buf_t \<Rightarrow> bool) \<Rightarrow> (ngx_buf_t \<Rightarrow> int) \<Rightarrow> mem \<Rightarrow> addr option \<Rightarrow> int
     \<Rightarrow> (addr option \<times> mem) option" where
  "ngx_chain_update_sent buf_special buf_in_memory buf_size s in' sent =
     (case in' of
        None \<Rightarrow> Some (None, s)
      | Some cl \<Rightarrow>
          (case buf (chains s cl) of
             None \<Rightarrow> None
           | Some b \<Rightarrow>
               if buf_special (bufs s b) then
                 ngx_chain_update_sent buf_special buf_in_memory buf_size s (next' (chains s cl)) sent
               else if sent = 0 then Some (in', s)
               else
                 (let size' = buf_size (bufs s b) in
                  if sent \<ge> size' then
                    (let s1 = (if buf_in_memory (bufs s b)
                               then s\<lparr>bufs := (bufs s)(b := (bufs s b)\<lparr>pos := last' (bufs s b)\<rparr>)\<rparr>
                               else s);
                         s2 = (if in_file (bufs s1 b)
                               then s1\<lparr>bufs := (bufs s1)(b := (bufs s1 b)\<lparr>file_pos := file_last (bufs s1 b)\<rparr>)\<rparr>
                               else s1)
                     in ngx_chain_update_sent buf_special buf_in_memory buf_size s2
                          (next' (chains s2 cl)) (sent - size'))
                  else
                    (let s1 = (if buf_in_memory (bufs s b)
                               then s\<lparr>bufs := (bufs s)(b := (bufs s b)\<lparr>pos := pos (bufs s b) + sent\<rparr>)\<rparr>
                               else s);
                         s2 = (if in_file (bufs s1 b)
                               then s1\<lparr>bufs := (bufs s1)(b := (bufs s1 b)\<lparr>file_pos := file_pos (bufs s1 b) + sent\<rparr>)\<rparr>
                               else s1)
                     in Some (in', s2)))))"

section \<open>Segmented list (\<^verbatim>\<open>core/ngx_list.c\<close>)\<close>

subsection \<open>\<^verbatim>\<open>ngx_list_push\<close>\<close>

text \<open>
  The tail of the function, from \<^verbatim>\<open>elt = (char *) last->elts + l->size * last->nelts\<close>:
  the slot address and the incremented used-count of the part \<open>la\<close>.  The counts are
  \<^verbatim>\<open>ngx_uint_t\<close> and \<^verbatim>\<open>size_t\<close>, 64 bits wide, and wrap.  Address arithmetic on a
  null element block is undefined in C: the result is \<open>None\<close>.
\<close>

definition list_push_slot :: "mem \<Rightarrow> ngx_list_t \<Rightarrow> addr \<Rightarrow> (addr option \<times> ngx_list_t \<times> mem) option" where
  "list_push_slot s l la =
     (case elts (parts s la) of
        None \<Rightarrow> None
      | Some e \<Rightarrow>
          Some (Some (e + (size_l l * nelts (parts s la)) mod 2 ^ 64), l,
                s\<lparr>parts := (parts s)(la := (parts s la)\<lparr>nelts := (nelts (parts s la) + 1) mod 2 ^ 64\<rparr>)\<rparr>))"

text \<open>
  The list header \<^verbatim>\<open>*l\<close> is passed in and returned: the result is the returned slot
  (\<open>None\<close> is \<^verbatim>\<open>NULL\<close>), the header and the memory.
\<close>

definition ngx_list_push :: "mem \<Rightarrow> ngx_list_t \<Rightarrow> (addr option \<times> ngx_list_t \<times> mem) option" where
  "ngx_list_push s l =
     (case last_p l of
        None \<Rightarrow> None
      | Some la \<Rightarrow>
          if nelts (parts s la) = nalloc l then
            (case ngx_palloc (pool s) sizeof_ngx_list_part_t of
               (None, p1) \<Rightarrow> Some (None, l, s\<lparr>pool := p1\<rparr>)
             | (Some np, p1) \<Rightarrow>
                 (case ngx_palloc p1 ((nalloc l * size_l l) mod 2 ^ 64) of
                    (None, p2) \<Rightarrow>
                      Some (None, l, s\<lparr>pool := p2, parts := (parts s)(np := (parts s np)\<lparr>elts := None\<rparr>)\<rparr>)
                  | (Some e, p2) \<Rightarrow>
                      (let s1 = s\<lparr>pool := p2,
                                 parts := (parts s)(np := (parts s np)\<lparr>elts := Some e, nelts := 0, next_p := None\<rparr>)\<rparr>;
                           s2 = s1\<lparr>parts := (parts s1)(la := (parts s1 la)\<lparr>next_p := Some np\<rparr>)\<rparr>;
                           l2 = l\<lparr>last_p := Some np\<rparr>
                       in list_push_slot s2 l2 np)))
          else list_push_slot s l la)"

section \<open>Chains as lists of links\<close>

text \<open>
  \<open>chain_seg nx p cs q\<close>: following the successor field \<open>nx\<close> from the pointer
  \<open>p\<close> visits exactly the links \<open>cs\<close>, in this order, and arrives at \<open>q\<close>.
  \<open>is_chain s p cs\<close>: in the memory \<open>s\<close> the pointer \<open>p\<close> heads a well-formed,
  null-terminated chain whose links are \<open>cs\<close>.  \<open>chain_bufs s cs bs\<close>: the links
  \<open>cs\<close> refer, in this order, to the buffers \<open>bs\<close> (none of them is \<^verbatim>\<open>NULL\<close>).
\<close>

primrec chain_seg :: "(addr \<Rightarrow> addr option) \<Rightarrow> addr option \<Rightarrow> addr list \<Rightarrow> addr option \<Rightarrow> bool" where
  "chain_seg nx p [] q = (p = q)"
| "chain_seg nx p (a # as) q = (p = Some a \<and> chain_seg nx (nx a) as q)"

definition is_chain :: "mem \<Rightarrow> addr option \<Rightarrow> addr list \<Rightarrow> bool" where
  "is_chain s p cs = chain_seg (\<lambda>a. next' (chains s a)) p cs None"

definition chain_bufs :: "mem \<Rightarrow> addr list \<Rightarrow> addr list \<Rightarrow> bool" where
  "chain_bufs s cs bs = (map (\<lambda>c. buf (chains s c)) cs = map Some bs)"

subsection \<open>File ranges\<close>

text \<open>
  \<open>file_size\<close> is the length of a buffer's file range and \<open>files_total s bs j\<close> the
  total length of the ranges of the first \<open>j\<close> buffers of \<open>bs\<close>.
  \<open>coalesce_merges s limit fd0 bs j\<close> is the condition of the spec for taking link
  \<open>j > 0\<close> into the span: its buffer is file-backed, has the running descriptor
  \<open>fd0\<close>, starts where the previous buffer's range ends, and the total before it is
  below \<open>limit\<close>.
\<close>

definition file_size :: "ngx_buf_t \<Rightarrow> int" where
  "file_size b = file_last b - file_pos b"

definition files_total :: "mem \<Rightarrow> addr list \<Rightarrow> nat \<Rightarrow> int" where
  "files_total s bs j = sum_list (map (\<lambda>b. file_size (bufs s b)) (take j bs))"

definition coalesce_merges :: "mem \<Rightarrow> int \<Rightarrow> int \<Rightarrow> addr list \<Rightarrow> nat \<Rightarrow> bool" where
  "coalesce_merges s limit fd0 bs j =
     (in_file (bufs s (bs ! j)) \<and>
      (case file' (bufs s (bs ! j)) of None \<Rightarrow> False | Some f \<Rightarrow> fd (files s f) = fd0) \<and>
      file_pos (bufs s (bs ! j)) = file_last (bufs s (bs ! (j - 1))) \<and>
      files_total s bs j < limit)"

subsection \<open>Sent-byte accounting on a list of buffers\<close>

text \<open>
  Section 4.4 of the spec, written on the list of the buffers of a chain and the store of
  buffer headers.  \<open>buf_drained\<close> is the fully drained buffer (\<^verbatim>\<open>pos = last\<close> if it
  is in memory, \<^verbatim>\<open>file_pos = file_last\<close> if it is file-backed) and \<open>buf_advanced\<close> the
  partially sent one (both cursors advanced by \<open>sent\<close>).  \<open>advance_spec\<close> walks the
  list: a special buffer is skipped; at a buffer that is not special the walk stops if
  \<open>sent = 0\<close>; if \<open>sent\<close> is at least the size the buffer is drained, the size is
  subtracted and the walk goes on; otherwise the buffer is advanced and the walk stops.  The
  result is the number of buffers passed and the new store.
\<close>

definition buf_drained :: "(ngx_buf_t \<Rightarrow> bool) \<Rightarrow> ngx_buf_t \<Rightarrow> ngx_buf_t" where
  "buf_drained buf_in_memory b =
     b\<lparr>pos := (if buf_in_memory b then last' b else pos b),
       file_pos := (if in_file b then file_last b else file_pos b)\<rparr>"

definition buf_advanced :: "(ngx_buf_t \<Rightarrow> bool) \<Rightarrow> ngx_buf_t \<Rightarrow> int \<Rightarrow> ngx_buf_t" where
  "buf_advanced buf_in_memory b sent =
     b\<lparr>pos := (if buf_in_memory b then pos b + sent else pos b),
       file_pos := (if in_file b then file_pos b + sent else file_pos b)\<rparr>"

fun advance_spec ::
  "(ngx_buf_t \<Rightarrow> bool) \<Rightarrow> (ngx_buf_t \<Rightarrow> bool) \<Rightarrow> (ngx_buf_t \<Rightarrow> int) \<Rightarrow> (addr \<Rightarrow> ngx_buf_t) \<Rightarrow> addr list \<Rightarrow> int
     \<Rightarrow> nat \<times> (addr \<Rightarrow> ngx_buf_t)" where
  "advance_spec buf_special buf_in_memory buf_size st [] sent = (0, st)"
| "advance_spec buf_special buf_in_memory buf_size st (b # bs) sent =
     (if buf_special (st b) then
        (let r = advance_spec buf_special buf_in_memory buf_size st bs sent in (Suc (fst r), snd r))
      else if sent = 0 then (0, st)
      else if sent \<ge> buf_size (st b) then
        (let r = advance_spec buf_special buf_in_memory buf_size
                   (st(b := buf_drained buf_in_memory (st b))) bs (sent - buf_size (st b))
         in (Suc (fst r), snd r))
      else (0, st(b := buf_advanced buf_in_memory (st b) sent)))"

subsection \<open>Recycling on a list of links\<close>

text \<open>
  The busy chain is seen as the list \<open>kb\<close> of its links paired with their buffers.
  \<open>buf_reset\<close> is the reset of the memory cursors, \<^verbatim>\<open>pos = last = start\<close>.  A head
  is drained when its buffer has size zero.  The loop of \<^verbatim>\<open>ngx_chain_update_chains\<close>
  works through the longest prefix of drained heads: of these, \<open>reclaimed\<close> are the ones
  whose tag is the given tag and \<open>abandoned\<close> the others, both in drain order;
  \<open>still_busy\<close> is what follows the prefix, from the first head that is not drained.
\<close>

definition buf_reset :: "ngx_buf_t \<Rightarrow> ngx_buf_t" where
  "buf_reset b = b\<lparr>pos := start b, last' := start b\<rparr>"

definition drained_head :: "(ngx_buf_t \<Rightarrow> int) \<Rightarrow> mem \<Rightarrow> addr \<times> addr \<Rightarrow> bool" where
  "drained_head buf_size s cb = (buf_size (bufs s (snd cb)) = 0)"

definition tag_matches :: "mem \<Rightarrow> nat \<Rightarrow> addr \<times> addr \<Rightarrow> bool" where
  "tag_matches s tg cb = (tag (bufs s (snd cb)) = tg)"

definition reclaimed :: "(ngx_buf_t \<Rightarrow> int) \<Rightarrow> mem \<Rightarrow> nat \<Rightarrow> (addr \<times> addr) list \<Rightarrow> (addr \<times> addr) list" where
  "reclaimed buf_size s tg kb = filter (tag_matches s tg) (takeWhile (drained_head buf_size s) kb)"

definition abandoned :: "(ngx_buf_t \<Rightarrow> int) \<Rightarrow> mem \<Rightarrow> nat \<Rightarrow> (addr \<times> addr) list \<Rightarrow> (addr \<times> addr) list" where
  "abandoned buf_size s tg kb =
     filter (\<lambda>cb. \<not> tag_matches s tg cb) (takeWhile (drained_head buf_size s) kb)"

definition still_busy :: "(ngx_buf_t \<Rightarrow> int) \<Rightarrow> mem \<Rightarrow> (addr \<times> addr) list \<Rightarrow> (addr \<times> addr) list" where
  "still_busy buf_size s kb = dropWhile (drained_head buf_size s) kb"

subsection \<open>A chain under construction\<close>

text \<open>
  While \<^verbatim>\<open>ngx_chain_add_copy\<close> appends, the destination ends in the cell that
  \<^verbatim>\<open>ll\<close> points at, which is written last.  \<open>open_chain s chain_v ll as\<close>: the links
  \<open>as\<close> are linked in this order from \<^verbatim>\<open>*chain\<close>, and \<^verbatim>\<open>ll\<close> is the successor
  field of the last of them (or \<^verbatim>\<open>*chain\<close> itself if there is none).
\<close>

definition open_chain :: "mem \<Rightarrow> addr option \<Rightarrow> ngx_chain_ref \<Rightarrow> addr list \<Rightarrow> bool" where
  "open_chain s chain_v ll as =
     (case ll of
        Chain_var \<Rightarrow> as = []
      | Next_of l \<Rightarrow>
          as \<noteq> [] \<and> last as = l \<and> distinct as \<and>
          chain_seg (\<lambda>a. next' (chains s a)) chain_v (butlast as) (Some l))"

text \<open>
  \<open>arena_links p\<close> are the links that the arena of the pool \<open>p\<close> has room for, in
  the order in which \<^verbatim>\<open>ngx_alloc_chain_link\<close> gets them once the pool's free list is
  used up: consecutive addresses from the first unallocated one, as many as fit before the
  end of the arena.
\<close>

definition arena_links :: "ngx_pool_t \<Rightarrow> addr list" where
  "arena_links p =
     map (\<lambda>k. d_last p + k * sizeof_ngx_chain_t) [0..<(d_end p - d_last p) div sizeof_ngx_chain_t]"

section \<open>The segmented list as a sequence of slots\<close>

text \<open>
  \<open>part_slots s l p\<close> are the addresses of the used slots of the Part \<open>p\<close> in index
  order, and \<open>list_slots s l ps\<close> those of the Parts \<open>ps\<close> in this order: what an
  iteration over the list visits.

  \<open>list_inv s l ps\<close> is the invariant of a list \<open>l\<close> whose Parts are \<open>ps\<close>: the
  Parts form a null-terminated chain from the first Part \<^verbatim>\<open>l->part\<close>, the last of them
  is the tail \<^verbatim>\<open>l->last\<close>, the per-Part capacity fits \<^verbatim>\<open>ngx_uint_t\<close>, every Part
  has an element block and a used-count of at most the capacity, and no Part lies in the
  unallocated region of the arena.
\<close>

definition part_slots :: "mem \<Rightarrow> ngx_list_t \<Rightarrow> addr \<Rightarrow> addr list" where
  "part_slots s l p =
     (case elts (parts s p) of
        None \<Rightarrow> []
      | Some e \<Rightarrow> map (\<lambda>k. e + (size_l l * k) mod 2 ^ 64) [0..<nelts (parts s p)])"

definition list_slots :: "mem \<Rightarrow> ngx_list_t \<Rightarrow> addr list \<Rightarrow> addr list" where
  "list_slots s l ps = concat (map (part_slots s l) ps)"

definition list_inv :: "mem \<Rightarrow> ngx_list_t \<Rightarrow> addr list \<Rightarrow> bool" where
  "list_inv s l ps =
     (chain_seg (\<lambda>a. next_p (parts s a)) (Some (part l)) ps None \<and>
      last_p l = Some (last ps) \<and>
      nalloc l < 2 ^ 64 \<and>
      (\<forall>p\<in>set ps. nelts (parts s p) \<le> nalloc l \<and> elts (parts s p) \<noteq> None \<and>
                   (p < d_last (pool s) \<or> d_end (pool s) \<le> p)))"

section \<open>Example memories\<close>

text \<open>
  Concrete memories on which the functions are run below.  \<open>mem0\<close> has an empty free
  list of links and an arena with room from address 4096 to 8192.
\<close>

definition mem0 :: mem where
  "mem0 = \<lparr>pool = \<lparr>chain = None, d_last = 4096, d_end = 8192\<rparr>,
            chains = (\<lambda>_. \<lparr>buf = None, next' = None\<rparr>),
            bufs = (\<lambda>_. zero_buf),
            files = (\<lambda>_. \<lparr>fd = 0\<rparr>),
            parts = (\<lambda>_. \<lparr>elts = None, nelts = 0, next_p = None\<rparr>)\<rparr>"

text \<open>
  Modelled from the spec: the macros \<^verbatim>\<open>ngx_buf_in_memory\<close>, \<^verbatim>\<open>ngx_buf_special\<close> and
  \<^verbatim>\<open>ngx_buf_size\<close> (\<^verbatim>\<open>core/ngx_buf.h\<close>) are not among the sources, and the functions
  above take them as parameters.  These instances serve to run the functions on the example
  memories: a buffer is in memory if one of its memory flags (temporary, read-only memory,
  memory-mapped) is set; it is special if it is a flush, sync or last-buffer marker that is
  neither in memory nor file-backed; its size is what remains in memory if it is in memory
  and what remains in the file otherwise.
\<close>

definition ngx_buf_in_memory :: "ngx_buf_t \<Rightarrow> bool" where
  "ngx_buf_in_memory b = (temporary b \<or> memory b \<or> mmap b)"

definition ngx_buf_special :: "ngx_buf_t \<Rightarrow> bool" where
  "ngx_buf_special b = ((flush b \<or> last_buf b \<or> sync b) \<and> \<not> ngx_buf_in_memory b \<and> \<not> in_file b)"

definition ngx_buf_size :: "ngx_buf_t \<Rightarrow> int" where
  "ngx_buf_size b = (if ngx_buf_in_memory b then last' b - pos b else file_last b - file_pos b)"

text \<open>The pool's free list holds the links 16 and 32; link 16 still refers to buffer 200.\<close>

definition mem_pop :: mem where
  "mem_pop = mem0\<lparr>pool := (pool mem0)\<lparr>chain := Some 16\<rparr>,
       chains := (chains mem0)(16 := \<lparr>buf = Some 200, next' = Some 32\<rparr>)\<rparr>"

text \<open>A consumer's free chain of the links 16 and 32 with the buffers 200 and 300.\<close>

definition mem_free :: mem where
  "mem_free = mem0\<lparr>chains := (chains mem0)(16 := \<lparr>buf = Some 200, next' = Some 32\<rparr>,
                                               32 := \<lparr>buf = Some 300, next' = None\<rparr>),
                    bufs := (bufs mem0)(200 := zero_buf\<lparr>pos := 5, last' := 9, start := 1, end' := 9,
                                                         tag := 7, temporary := True\<rparr>)\<rparr>"

text \<open>
  Two links 16 and 32 whose buffers 200 and 300 are the ranges \<open>[0, 100)\<close> and
  \<open>[100, 250)\<close> of the file with descriptor 5.
\<close>

definition mem_files :: mem where
  "mem_files = mem0\<lparr>
     chains := (chains mem0)(16 := \<lparr>buf = Some 200, next' = Some 32\<rparr>,
                              32 := \<lparr>buf = Some 300, next' = None\<rparr>),
     bufs := (bufs mem0)(200 := zero_buf\<lparr>file_pos := 0, file_last := 100, file' := Some 900, in_file := True\<rparr>,
                          300 := zero_buf\<lparr>file_pos := 100, file_last := 250, file' := Some 900, in_file := True\<rparr>),
     files := (files mem0)(900 := \<lparr>fd = 5\<rparr>)\<rparr>"


text \<open>
  One link 16 whose buffer 200 is a range of 99 bytes that ends one byte below \<open>2^63\<close>,
  the largest \<^verbatim>\<open>off_t\<close>: \<open>[2^63 - 100, 2^63 - 1)\<close>.
\<close>

definition mem_edge :: mem where
  "mem_edge = mem0\<lparr>
     chains := (chains mem0)(16 := \<lparr>buf = Some 200, next' = None\<rparr>),
     bufs := (bufs mem0)(200 := zero_buf\<lparr>file_pos := 9223372036854775708,
                                           file_last := 9223372036854775807,
                                           file' := Some 900, in_file := True\<rparr>),
     files := (files mem0)(900 := \<lparr>fd = 5\<rparr>)\<rparr>"

text \<open>
  Three links 16, 32 and 48 whose buffers 200, 300 and 400 are temporary memory buffers
  with 10, 20 and 30 bytes to send.
\<close>

definition mem_sent :: mem where
  "mem_sent = mem0\<lparr>
     chains := (chains mem0)(16 := \<lparr>buf = Some 200, next' = Some 32\<rparr>,
                              32 := \<lparr>buf = Some 300, next' = Some 48\<rparr>,
                              48 := \<lparr>buf = Some 400, next' = None\<rparr>),
     bufs := (bufs mem0)(200 := zero_buf\<lparr>pos := 1000, last' := 1010, start := 1000, end' := 1010, temporary := True\<rparr>,
                          300 := zero_buf\<lparr>pos := 2000, last' := 2020, start := 2000, end' := 2020, temporary := True\<rparr>,
                          400 := zero_buf\<lparr>pos := 3000, last' := 3030, start := 3000, end' := 3030, temporary := True\<rparr>)\<rparr>"

text \<open>
  A busy chain of the links 16, 32 and 48 whose buffers 200, 300 and 400 are drained memory
  buffers with the tag 7; in \<open>mem_busy_u\<close> the second buffer has the tag 9.
\<close>

definition mem_busy :: mem where
  "mem_busy = mem0\<lparr>
     chains := (chains mem0)(16 := \<lparr>buf = Some 200, next' = Some 32\<rparr>,
                              32 := \<lparr>buf = Some 300, next' = Some 48\<rparr>,
                              48 := \<lparr>buf = Some 400, next' = None\<rparr>),
     bufs := (bufs mem0)(200 := zero_buf\<lparr>pos := 1010, last' := 1010, start := 1000, end' := 1010, tag := 7, temporary := True\<rparr>,
                          300 := zero_buf\<lparr>pos := 2020, last' := 2020, start := 2000, end' := 2020, tag := 7, temporary := True\<rparr>,
                          400 := zero_buf\<lparr>pos := 3030, last' := 3030, start := 3000, end' := 3030, tag := 7, temporary := True\<rparr>)\<rparr>"

definition mem_busy_u :: mem where
  "mem_busy_u = mem0\<lparr>
     chains := (chains mem0)(16 := \<lparr>buf = Some 200, next' = Some 32\<rparr>,
                              32 := \<lparr>buf = Some 300, next' = Some 48\<rparr>,
                              48 := \<lparr>buf = Some 400, next' = None\<rparr>),
     bufs := (bufs mem0)(200 := zero_buf\<lparr>pos := 1010, last' := 1010, start := 1000, end' := 1010, tag := 7, temporary := True\<rparr>,
                          300 := zero_buf\<lparr>pos := 2020, last' := 2020, start := 2000, end' := 2020, tag := 9, temporary := True\<rparr>,
                          400 := zero_buf\<lparr>pos := 3030, last' := 3030, start := 3000, end' := 3030, tag := 7, temporary := True\<rparr>)\<rparr>"


text \<open>
  The same destination and free list with a source chain of the three links 32, 48 and 80
  (buffers 300, 400 and 600) and an arena with 24 bytes left, room for one link.
\<close>

definition mem_copy_full :: mem where
  "mem_copy_full = mem0\<lparr>
     pool := (pool mem0)\<lparr>chain := Some 64, d_end := 4120\<rparr>,
     chains := (chains mem0)(16 := \<lparr>buf = Some 200, next' = None\<rparr>,
                              32 := \<lparr>buf = Some 300, next' = Some 48\<rparr>,
                              48 := \<lparr>buf = Some 400, next' = Some 80\<rparr>,
                              80 := \<lparr>buf = Some 600, next' = None\<rparr>,
                              64 := \<lparr>buf = Some 500, next' = None\<rparr>)\<rparr>"

text \<open>
  A list of 8-byte elements with two slots per Part, whose only Part 100 has its element
  block at 1000; one slot is used in \<open>mem_list\<close> and both in \<open>mem_list_full\<close>.
\<close>

definition list0 :: ngx_list_t where
  "list0 = \<lparr>last_p = Some 100, part = 100, size_l = 8, nalloc = 2\<rparr>"

definition mem_list :: mem where
  "mem_list = mem0\<lparr>parts := (parts mem0)(100 := \<lparr>elts = Some 1000, nelts = 1, next_p = None\<rparr>)\<rparr>"

definition mem_list_full :: mem where
  "mem_list_full = mem0\<lparr>parts := (parts mem0)(100 := \<lparr>elts = Some 1000, nelts = 2, next_p = None\<rparr>)\<rparr>"

text \<open>
  A list of 8-byte elements created with the capacity 0: its only Part 100 has an (empty)
  element block at 1000 and no slot in use.
\<close>

definition list_zero :: ngx_list_t where
  "list_zero = \<lparr>last_p = Some 100, part = 100, size_l = 8, nalloc = 0\<rparr>"

definition mem_list_zero :: mem where
  "mem_list_zero = mem0\<lparr>parts := (parts mem0)(100 := \<lparr>elts = Some 1000, nelts = 0, next_p = None\<rparr>)\<rparr>"

text \<open>The full one-Part list of \<open>mem_list_full\<close> with an arena that has 30 bytes left.\<close>

definition mem_list_tight :: mem where
  "mem_list_tight = mem0\<lparr>pool := (pool mem0)\<lparr>d_end := 4126\<rparr>,
     parts := (parts mem0)(100 := \<lparr>elts = Some 1000, nelts = 2, next_p = None\<rparr>)\<rparr>"

section \<open>Facts about chains\<close>

lemma chain_seg_append:
  "chain_seg nx p (as @ bs) q = (\<exists>r. chain_seg nx p as r \<and> chain_seg nx r bs q)"
  by (induction as arbitrary: p) auto

lemma chain_seg_nth:
  "chain_seg nx p cs q \<Longrightarrow> k < length cs \<Longrightarrow>
     nx (cs ! k) = (if Suc k < length cs then Some (cs ! Suc k) else q)"
proof (induction cs arbitrary: p k)
  case Nil
  then show ?case by simp
next
  case (Cons a cs)
  show ?case
  proof (cases k)
    case 0
    with Cons.prems show ?thesis by (cases cs) auto
  next
    case (Suc n)
    with Cons.prems Cons.IH [of "nx a" n] show ?thesis by auto
  qed
qed

lemma chain_seg_head: "chain_seg nx p cs q \<Longrightarrow> cs \<noteq> [] \<Longrightarrow> p = Some (cs ! 0)"
  by (cases cs) auto

lemma is_chain_next:
  "is_chain s p cs \<Longrightarrow> k < length cs \<Longrightarrow>
     next' (chains s (cs ! k)) = (if Suc k < length cs then Some (cs ! Suc k) else None)"
  unfolding is_chain_def by (drule chain_seg_nth [where k = k]) auto

lemma chain_bufs_nth:
  "chain_bufs s cs bs \<Longrightarrow> k < length cs \<Longrightarrow> buf (chains s (cs ! k)) = Some (bs ! k)"
  unfolding chain_bufs_def
  by (metis length_map nth_map)

lemma chain_bufs_length: "chain_bufs s cs bs \<Longrightarrow> length bs = length cs"
  unfolding chain_bufs_def by (metis length_map)

lemma chain_seg_unique:
  "chain_seg nx p as None \<Longrightarrow> chain_seg nx p bs None \<Longrightarrow> as = bs"
proof (induction as arbitrary: p bs)
  case Nil
  then show ?case by (cases bs) auto
next
  case (Cons a as)
  then show ?case by (cases bs) auto
qed

lemma chain_seg_not_in_tail:
  assumes "chain_seg nx (nx a) cs None"
  shows "a \<notin> set cs"
proof
  assume "a \<in> set cs"
  then obtain xs ys where cs: "cs = xs @ a # ys" by (auto simp: in_set_conv_decomp)
  with assms obtain r where "chain_seg nx r (a # ys) None"
    by (auto simp: chain_seg_append)
  then have "chain_seg nx (nx a) ys None" by simp
  with assms have "cs = ys" by (rule chain_seg_unique)
  with cs show False by simp
qed

lemma chain_seg_distinct: "chain_seg nx p cs None \<Longrightarrow> distinct cs"
  by (induction cs arbitrary: p) (auto dest: chain_seg_not_in_tail)

lemma is_chain_distinct: "is_chain s p cs \<Longrightarrow> distinct cs"
  unfolding is_chain_def by (rule chain_seg_distinct)

lemma chain_seg_upd:
  "a \<notin> set cs \<Longrightarrow> chain_seg (nx(a := v)) p cs q = chain_seg nx p cs q"
  by (induction cs arbitrary: p) auto

lemma chain_seg_cong:
  "(\<And>a. a \<in> set cs \<Longrightarrow> nx a = nx' a) \<Longrightarrow> chain_seg nx p cs q = chain_seg nx' p cs q"
  by (induction cs arbitrary: p) auto

lemma is_chain_cong:
  "(\<And>a. a \<in> set cs \<Longrightarrow> next' (chains s a) = next' (chains s' a)) \<Longrightarrow>
     is_chain s p cs = is_chain s' p cs"
  unfolding is_chain_def by (rule chain_seg_cong) simp

lemma is_chain_Nil [simp]: "is_chain s p [] = (p = None)"
  by (simp add: is_chain_def)

lemma is_chain_Cons [simp]:
  "is_chain s p (c # cs) = (p = Some c \<and> is_chain s (next' (chains s c)) cs)"
  by (simp add: is_chain_def)

lemma is_chain_None [simp]: "is_chain s None cs = (cs = [])"
  by (cases cs) auto

lemma chain_bufs_Cons [simp]:
  "chain_bufs s (c # cs) bs = (\<exists>b bs'. bs = b # bs' \<and> buf (chains s c) = Some b \<and> chain_bufs s cs bs')"
  by (cases bs) (auto simp: chain_bufs_def)

lemma chain_bufs_Nil [simp]: "chain_bufs s [] bs = (bs = [])"
  by (auto simp: chain_bufs_def)

lemma chain_bufs_cong:
  "(\<And>a. a \<in> set cs \<Longrightarrow> buf (chains s a) = buf (chains s' a)) \<Longrightarrow>
     chain_bufs s cs bs = chain_bufs s' cs bs"
  unfolding chain_bufs_def by (metis (mono_tags, lifting) map_eq_conv)

lemma is_chain_frame:
  assumes "is_chain s p cs" and "\<And>a. a \<in> set cs \<Longrightarrow> chains s' a = chains s a"
  shows "is_chain s' p cs"
  using assms by (subst is_chain_cong [where s' = s]) simp_all

lemma chain_bufs_frame:
  assumes "chain_bufs s cs bs" and "\<And>a. buf (chains s' a) = buf (chains s a)"
  shows "chain_bufs s' cs bs"
  using assms by (subst chain_bufs_cong [where s' = s]) simp_all

section \<open>Allocation of chain links\<close>

text \<open>
  C8, as the claim states it, fails.  A link popped from the pool's free list is returned as
  it lies there: with the free list 16, 32 the returned link 16 still has its successor 32
  and its buffer 200.
\<close>

theorem alloc_chain_link_not_empty:
  "fst (ngx_alloc_chain_link mem_pop) = Some 16 \<and>
   buf (chains (snd (ngx_alloc_chain_link mem_pop)) 16) = Some 200 \<and>
   next' (chains (snd (ngx_alloc_chain_link mem_pop)) 16) = Some 32"
  by (simp add: ngx_alloc_chain_link_def mem_pop_def mem0_def)

text \<open>
  C8, amended.  If the pool's free list is not empty, \<^verbatim>\<open>ngx_alloc_chain_link\<close> returns its
  head link and the free list becomes that link's successor; otherwise it returns what the
  arena gives for the size of a link (an address, or \<^verbatim>\<open>NULL\<close>).  In both cases no link
  is written to: the returned link keeps the buffer reference and the successor it had (a
  fresh link holds what the memory held), and the buffers are untouched.
\<close>

theorem alloc_chain_link_pop_or_fresh:
  "(chain (pool s) = Some cl \<longrightarrow>
      ngx_alloc_chain_link s = (Some cl, s\<lparr>pool := (pool s)\<lparr>chain := next' (chains s cl)\<rparr>\<rparr>)) \<and>
   (chain (pool s) = None \<longrightarrow>
      fst (ngx_alloc_chain_link s) = fst (ngx_palloc (pool s) sizeof_ngx_chain_t) \<and>
      pool (snd (ngx_alloc_chain_link s)) = snd (ngx_palloc (pool s) sizeof_ngx_chain_t)) \<and>
   chains (snd (ngx_alloc_chain_link s)) = chains s \<and>
   bufs (snd (ngx_alloc_chain_link s)) = bufs s"
  by (simp add: ngx_alloc_chain_link_def split: option.split prod.split)

theorem alloc_chain_link_pop_or_fresh_witness:
  "chain (pool mem_pop) = Some 16 \<and>
   ngx_alloc_chain_link mem_pop = (Some 16, mem_pop\<lparr>pool := (pool mem_pop)\<lparr>chain := Some 32\<rparr>\<rparr>) \<and>
   chain (pool mem0) = None \<and>
   fst (ngx_alloc_chain_link mem0) = Some 4096 \<and>
   d_last (pool (snd (ngx_alloc_chain_link mem0))) = 4112 \<and>
   chains (snd (ngx_alloc_chain_link mem_pop)) = chains mem_pop"
  using alloc_chain_link_pop_or_fresh [of mem_pop 16] alloc_chain_link_pop_or_fresh [of mem0 0]
  by (simp add: mem_pop_def mem0_def ngx_palloc_def sizeof_ngx_chain_t_def)

text \<open>
  C10.  \<^verbatim>\<open>ngx_chain_get_free_buf\<close> on a non-empty free chain returns the head link with
  its successor cleared, the free chain becomes the former second link, and nothing else
  changes: the link keeps its buffer reference, no buffer is written and the pool is as it
  was.

  On an empty free chain the call needs a link, which it pops from the pool's free list or,
  if that list is empty, takes from the arena, and a buffer header, which it always takes
  from the arena.  It returns \<^verbatim>\<open>NULL\<close> exactly if the arena has no room for what it must
  supply, and the free chain is still empty then and no buffer is written.  Otherwise the
  returned link is the popped one (the pool's list moves on to its successor) or the first
  unallocated address of the arena; its successor is null; its buffer is the next unallocated
  address of the arena, behind the link if that came from the arena too, with every field
  cleared; the arena's first unallocated address has moved past the buffer; and no other
  link or buffer is written.
\<close>

theorem get_free_buf_pop_or_new:
  "(free = Some cl \<longrightarrow>
      (case ngx_chain_get_free_buf s free of (r, free1, s1) \<Rightarrow>
         r = Some cl \<and> free1 = next' (chains s cl) \<and>
         next' (chains s1 cl) = None \<and> buf (chains s1 cl) = buf (chains s cl) \<and>
         (\<forall>a. a \<noteq> cl \<longrightarrow> chains s1 a = chains s a) \<and>
         bufs s1 = bufs s \<and> pool s1 = pool s)) \<and>
   (free = None \<longrightarrow>
      (case ngx_chain_get_free_buf s free of (r, free1, s1) \<Rightarrow>
         free1 = None \<and> d_end (pool s1) = d_end (pool s) \<and>
         (r = None \<longleftrightarrow>
            d_end (pool s) <
              d_last (pool s) + (if chain (pool s) = None then sizeof_ngx_chain_t else 0) + sizeof_ngx_buf_t) \<and>
         (case r of
            None \<Rightarrow> bufs s1 = bufs s
          | Some cl \<Rightarrow>
              (\<exists>b. cl = (case chain (pool s) of Some c \<Rightarrow> c | None \<Rightarrow> d_last (pool s)) \<and>
                   chain (pool s1) = (case chain (pool s) of Some c \<Rightarrow> next' (chains s c) | None \<Rightarrow> None) \<and>
                   b = (case chain (pool s) of Some c \<Rightarrow> d_last (pool s)
                        | None \<Rightarrow> d_last (pool s) + sizeof_ngx_chain_t) \<and>
                   chains s1 cl = \<lparr>buf = Some b, next' = None\<rparr> \<and>
                   (\<forall>a. a \<noteq> cl \<longrightarrow> chains s1 a = chains s a) \<and>
                   bufs s1 b = zero_buf \<and>
                   (\<forall>a. a \<noteq> b \<longrightarrow> bufs s1 a = bufs s a) \<and>
                   d_last (pool s1) = b + sizeof_ngx_buf_t \<and> d_last (pool s1) \<le> d_end (pool s)))))"
  by (auto simp: ngx_chain_get_free_buf_def ngx_alloc_chain_link_def ngx_calloc_buf_def ngx_palloc_def
           split: option.splits prod.splits if_splits)

text \<open>
  On \<open>mem_free\<close>: a pop from the free chain 16, 32, a call with an empty free chain that
  takes the link 4096 and the buffer 4112 from the arena, and, in \<open>mem_pop\<close>, a call
  with an empty free chain that pops the link 16 from the pool's free list and replaces its
  buffer reference by the new buffer 4096.
\<close>

theorem get_free_buf_pop_or_new_witness:
  "(case ngx_chain_get_free_buf mem_free (Some 16) of (r, free1, s1) \<Rightarrow>
      r = Some 16 \<and> free1 = Some 32 \<and> next' (chains s1 16) = None \<and> buf (chains s1 16) = Some 200 \<and>
      bufs s1 200 = bufs mem_free 200 \<and> pos (bufs s1 200) = 5 \<and> pool s1 = pool mem_free) \<and>
   (case ngx_chain_get_free_buf mem_free None of (r, free1, s1) \<Rightarrow>
      r = Some 4096 \<and> free1 = None \<and> chains s1 4096 = \<lparr>buf = Some 4112, next' = None\<rparr> \<and>
      bufs s1 4112 = zero_buf \<and> d_last (pool s1) = 4192 \<and> chain (pool s1) = None) \<and>
   (case ngx_chain_get_free_buf mem_pop None of (r, free1, s1) \<Rightarrow>
      r = Some 16 \<and> free1 = None \<and> chains s1 16 = \<lparr>buf = Some 4096, next' = None\<rparr> \<and>
      bufs s1 4096 = zero_buf \<and> d_last (pool s1) = 4176 \<and> chain (pool s1) = Some 32)"
  using get_free_buf_pop_or_new [of "Some 16" 16 mem_free] get_free_buf_pop_or_new [of None 0 mem_free]
    get_free_buf_pop_or_new [of None 0 mem_pop]
  by (simp add: mem_free_def mem_pop_def mem0_def ngx_chain_get_free_buf_def ngx_alloc_chain_link_def
        ngx_calloc_buf_def ngx_palloc_def sizeof_ngx_chain_t_def sizeof_ngx_buf_t_def)

section \<open>Coalescing file ranges\<close>

lemma files_total_Suc:
  "j < length bs \<Longrightarrow> files_total s bs (Suc j) = files_total s bs j + file_size (bufs s (bs ! j))"
  by (simp add: files_total_def take_Suc_conv_app_nth)

lemma coalesce_loop_run:
  assumes ch: "is_chain s p cs" and cb: "chain_bufs s cs bs"
    and wf: "\<forall>b\<in>set bs. in_file (bufs s b) \<longrightarrow> file' (bufs s b) \<noteq> None"
  shows "k < length cs \<Longrightarrow>
    \<exists>m. k < m \<and> m \<le> length cs \<and>
      (\<forall>j. k < j \<and> j < m \<longrightarrow> coalesce_merges s limit fd0 bs j) \<and>
      (\<forall>j. k \<le> j \<and> Suc j < m \<longrightarrow> file_size (bufs s (bs ! j)) \<le> limit - files_total s bs j) \<and>
      (coalesce_loop pagesize s limit fd0 (files_total s bs k) (cs ! k) =
         Some (files_total s bs m, if m < length cs then Some (cs ! m) else None) \<and>
       file_size (bufs s (bs ! (m - 1))) \<le> limit - files_total s bs (m - 1) \<and>
       (m < length cs \<longrightarrow> \<not> coalesce_merges s limit fd0 bs m)
       \<or>
       coalesce_loop pagesize s limit fd0 (files_total s bs k) (cs ! k) =
         coalesce_loop pagesize s limit fd0 (files_total s bs (m - 1)) (cs ! (m - 1)) \<and>
       file_size (bufs s (bs ! (m - 1))) > limit - files_total s bs (m - 1))"
proof (induction "length cs - k" arbitrary: k)
  case 0
  then show ?case by simp
next
  case (Suc n)
  have len: "length bs = length cs" using cb by (rule chain_bufs_length)
  have bk: "buf (chains s (cs ! k)) = Some (bs ! k)"
    using cb Suc.prems by (rule chain_bufs_nth)
  have nk: "next' (chains s (cs ! k)) = (if Suc k < length cs then Some (cs ! Suc k) else None)"
    using ch Suc.prems by (rule is_chain_next)
  let ?B = "bufs s (bs ! k)"
  let ?t = "files_total s bs k"
  show ?case
  proof (cases "file_size ?B > limit - ?t")
    case True
    with Suc.prems show ?thesis
      by (intro exI [of _ "Suc k"]) auto
  next
    case fits: False
    show ?thesis
    proof (cases "Suc k < length cs \<and> coalesce_merges s limit fd0 bs (Suc k)")
      case False
      have "coalesce_loop pagesize s limit fd0 ?t (cs ! k) =
         Some (files_total s bs (Suc k), if Suc k < length cs then Some (cs ! Suc k) else None)"
      proof (cases "Suc k < length cs")
        case last: False
        with fits show ?thesis
          using Suc.prems
          by (subst coalesce_loop.simps)
             (simp add: bk nk file_size_def Let_def files_total_Suc len)
      next
        case more: True
        with False have nm: "\<not> coalesce_merges s limit fd0 bs (Suc k)" by simp
        have bk1: "buf (chains s (cs ! Suc k)) = Some (bs ! Suc k)"
          using cb more by (rule chain_bufs_nth)
        have wf1: "in_file (bufs s (bs ! Suc k)) \<longrightarrow> file' (bufs s (bs ! Suc k)) \<noteq> None"
          using wf more len by simp
        from fits more nm wf1 show ?thesis
          using Suc.prems
          by (subst coalesce_loop.simps)
             (auto simp add: bk nk bk1 file_size_def Let_def files_total_Suc len coalesce_merges_def
                   split: option.splits)
      qed
      with fits False Suc.prems show ?thesis
        by (intro exI [of _ "Suc k"]) auto
    next
      case True
      then have more: "Suc k < length cs" and mg: "coalesce_merges s limit fd0 bs (Suc k)" by simp_all
      have bk1: "buf (chains s (cs ! Suc k)) = Some (bs ! Suc k)"
        using cb more by (rule chain_bufs_nth)
      have step: "coalesce_loop pagesize s limit fd0 ?t (cs ! k) =
           coalesce_loop pagesize s limit fd0 (files_total s bs (Suc k)) (cs ! Suc k)"
        using fits more mg Suc.prems
        by (subst coalesce_loop.simps)
           (auto simp add: bk nk bk1 file_size_def Let_def files_total_Suc len coalesce_merges_def
                 split: option.splits)
      from Suc.hyps(2) more have "n = length cs - Suc k" by simp
      from Suc.hyps(1) [OF this more] obtain m where
        m: "Suc k < m" "m \<le> length cs"
           "\<forall>j. Suc k < j \<and> j < m \<longrightarrow> coalesce_merges s limit fd0 bs j"
           "\<forall>j. Suc k \<le> j \<and> Suc j < m \<longrightarrow> file_size (bufs s (bs ! j)) \<le> limit - files_total s bs j"
        and res: "(coalesce_loop pagesize s limit fd0 (files_total s bs (Suc k)) (cs ! Suc k) =
         Some (files_total s bs m, if m < length cs then Some (cs ! m) else None) \<and>
       file_size (bufs s (bs ! (m - 1))) \<le> limit - files_total s bs (m - 1) \<and>
       (m < length cs \<longrightarrow> \<not> coalesce_merges s limit fd0 bs m)
       \<or>
       coalesce_loop pagesize s limit fd0 (files_total s bs (Suc k)) (cs ! Suc k) =
         coalesce_loop pagesize s limit fd0 (files_total s bs (m - 1)) (cs ! (m - 1)) \<and>
       file_size (bufs s (bs ! (m - 1))) > limit - files_total s bs (m - 1))"
        by blast
      have a: "\<forall>j. k < j \<and> j < m \<longrightarrow> coalesce_merges s limit fd0 bs j"
      proof (intro allI impI)
        fix j assume "k < j \<and> j < m"
        then have "j = Suc k \<or> (Suc k < j \<and> j < m)" by auto
        with mg m(3) show "coalesce_merges s limit fd0 bs j" by auto
      qed
      have b: "\<forall>j. k \<le> j \<and> Suc j < m \<longrightarrow> file_size (bufs s (bs ! j)) \<le> limit - files_total s bs j"
      proof (intro allI impI)
        fix j assume "k \<le> j \<and> Suc j < m"
        then have "j = k \<or> (Suc k \<le> j \<and> Suc j < m)" by auto
        with fits m(4) show "file_size (bufs s (bs ! j)) \<le> limit - files_total s bs j" by auto
      qed
      from m(1) have km: "k < m" by simp
      show ?thesis
        apply (rule exI [of _ m])
        apply (intro conjI km m(2) a b)
        using res unfolding step by blast
    qed
  qed
qed




lemma coalesce_file_run:
  assumes ch: "is_chain s in' cs" and ne: "cs \<noteq> []" and cb: "chain_bufs s cs bs"
    and wf: "\<forall>b\<in>set bs. in_file (bufs s b) \<longrightarrow> file' (bufs s b) \<noteq> None"
    and f0: "file' (bufs s (bs ! 0)) = Some f0"
  shows "\<exists>m. 0 < m \<and> m \<le> length cs \<and>
      (\<forall>j. 0 < j \<and> j < m \<longrightarrow> coalesce_merges s limit (fd (files s f0)) bs j) \<and>
      (\<forall>j. Suc j < m \<longrightarrow> file_size (bufs s (bs ! j)) \<le> limit - files_total s bs j) \<and>
      (ngx_chain_coalesce_file pagesize s in' limit =
         Some (files_total s bs m, if m < length cs then Some (cs ! m) else None) \<and>
       file_size (bufs s (bs ! (m - 1))) \<le> limit - files_total s bs (m - 1) \<and>
       (m < length cs \<longrightarrow> \<not> coalesce_merges s limit (fd (files s f0)) bs m)
       \<or>
       ngx_chain_coalesce_file pagesize s in' limit =
         coalesce_loop pagesize s limit (fd (files s f0)) (files_total s bs (m - 1)) (cs ! (m - 1)) \<and>
       file_size (bufs s (bs ! (m - 1))) > limit - files_total s bs (m - 1))"
proof -
  from ne have k: "0 < length cs" by simp
  have hd: "in' = Some (cs ! 0)"
    using ch ne unfolding is_chain_def by (rule chain_seg_head)
  have b0: "buf (chains s (cs ! 0)) = Some (bs ! 0)"
    using cb k by (rule chain_bufs_nth)
  have top: "ngx_chain_coalesce_file pagesize s in' limit =
      coalesce_loop pagesize s limit (fd (files s f0)) (files_total s bs 0) (cs ! 0)"
    by (simp add: ngx_chain_coalesce_file_def hd b0 f0 files_total_def)
  from coalesce_loop_run [OF ch cb wf k, of limit "fd (files s f0)" pagesize]
  show ?thesis unfolding top by auto
qed



lemma coalesce_loop_cut_some:
  assumes "buf (chains s cl) = Some b" and "limit - t0 < file_size (bufs s b)"
  shows "\<exists>t. coalesce_loop pagesize s limit fd0 t0 cl = Some (t, Some cl)"
  using assms by (subst coalesce_loop.simps) (simp add: file_size_def Let_def)


text \<open>
  The bounds on the offsets are needed.  In \<open>mem_edge\<close> the range ends within a page
  of \<open>2^63\<close>: with the limit 10 the rounded end \<open>2^63\<close> wraps to \<open>- 2^63\<close>, passes
  the test against \<^verbatim>\<open>file_last\<close>, and the call returns 100, more than the 99 bytes
  of the range.
\<close>

lemma coalesce_file_wraps:
  "ngx_chain_coalesce_file 4096 mem_edge (Some 16) 10 = Some (100, Some 16)"
  by (simp add: ngx_chain_coalesce_file_def coalesce_loop.simps off_t_wrap_def mem_edge_def mem0_def)

lemma coalesce_loop_two:
  assumes ch: "is_chain s (Some c1) [c1, c2]" and cb: "chain_bufs s [c1, c2] [b1, b2]"
    and f2: "file' (bufs s b2) = Some f2" and fd: "fd (files s f2) = fd0"
    and inf: "in_file (bufs s b2)"
    and r1: "file_pos (bufs s b1) = 0" "file_last (bufs s b1) = 100"
    and r2: "file_pos (bufs s b2) = 100" "file_last (bufs s b2) = 250"
  shows "250 \<le> limit \<Longrightarrow> coalesce_loop pagesize s limit fd0 0 c1 = Some (250, None)"
    and "100 < limit \<Longrightarrow> limit < 250 \<Longrightarrow> coalesce_loop pagesize s limit fd0 0 c1 =
           coalesce_loop pagesize s limit fd0 100 c2"
proof -
  from ch have n1: "next' (chains s c1) = Some c2" and n2: "next' (chains s c2) = None"
    by (simp_all add: is_chain_def)
  from cb have bb: "buf (chains s c1) = Some b1" "buf (chains s c2) = Some b2"
    by (simp_all add: chain_bufs_def)
  show "250 \<le> limit \<Longrightarrow> coalesce_loop pagesize s limit fd0 0 c1 = Some (250, None)"
    apply (subst coalesce_loop.simps)
    apply (simp add: n1 bb r1 r2 f2 fd inf)
    apply (subst coalesce_loop.simps)
    apply (simp add: n2 bb r1 r2 f2 fd inf)
    done
  show "100 < limit \<Longrightarrow> limit < 250 \<Longrightarrow> coalesce_loop pagesize s limit fd0 0 c1 =
           coalesce_loop pagesize s limit fd0 100 c2"
    by (subst coalesce_loop.simps) (simp add: n1 bb r1 r2 f2 fd inf)
qed

text \<open>
  C5.  On a well-formed chain \<open>cs\<close> with buffers \<open>bs\<close>, headed by a buffer with a
  file, \<^verbatim>\<open>ngx_chain_coalesce_file\<close> takes the first \<open>m\<close> links into the span, and
  every one of them after the head satisfies the merge condition: file-backed, the running
  descriptor, \<^verbatim>\<open>file_pos\<close> equal to the previous buffer's \<^verbatim>\<open>file_last\<close>, total so
  far strictly below the limit.  Either the whole ranges of the \<open>m\<close> links are the
  returned total and \<^verbatim>\<open>*in\<close> is the link after them (or \<^verbatim>\<open>NULL\<close>), the first that
  fails the condition; or the limit cuts into the range of link \<open>m - 1\<close> and
  \<^verbatim>\<open>*in\<close> stays on that link.  For two buffers of the same descriptor with ranges
  \<open>[0, 100)\<close> and \<open>[100, 250)\<close> and the limit 1000 the result is the total 250 with
  \<^verbatim>\<open>*in\<close> past both links.
\<close>

theorem coalesce_file_merges:
  assumes "is_chain s in' cs" and "cs \<noteq> []" and "chain_bufs s cs bs"
    and "\<forall>b\<in>set bs. in_file (bufs s b) \<longrightarrow> file' (bufs s b) \<noteq> None"
    and "file' (bufs s (bs ! 0)) = Some f0"
  shows "(\<exists>m. 0 < m \<and> m \<le> length cs \<and>
      (\<forall>j. 0 < j \<and> j < m \<longrightarrow> coalesce_merges s limit (fd (files s f0)) bs j) \<and>
      (ngx_chain_coalesce_file pagesize s in' limit =
         Some (files_total s bs m, if m < length cs then Some (cs ! m) else None) \<and>
       (m < length cs \<longrightarrow> \<not> coalesce_merges s limit (fd (files s f0)) bs m)
       \<or>
       (\<exists>t. ngx_chain_coalesce_file pagesize s in' limit = Some (t, Some (cs ! (m - 1)))) \<and>
       limit - files_total s bs (m - 1) < file_size (bufs s (bs ! (m - 1))))) \<and>
    (length cs = 2 \<and>
     file_pos (bufs s (bs ! 0)) = 0 \<and> file_last (bufs s (bs ! 0)) = 100 \<and>
     file_pos (bufs s (bs ! 1)) = 100 \<and> file_last (bufs s (bs ! 1)) = 250 \<and>
     in_file (bufs s (bs ! 1)) \<and>
     (case file' (bufs s (bs ! 1)) of None \<Rightarrow> False | Some f \<Rightarrow> fd (files s f) = fd (files s f0)) \<and>
     limit = 1000 \<longrightarrow>
     ngx_chain_coalesce_file pagesize s in' limit = Some (250, None))"
proof (intro conjI impI)
  from coalesce_file_run [OF assms, of limit pagesize] obtain m where
    m: "0 < m" "m \<le> length cs"
       "\<forall>j. 0 < j \<and> j < m \<longrightarrow> coalesce_merges s limit (fd (files s f0)) bs j"
    and res: "ngx_chain_coalesce_file pagesize s in' limit =
         Some (files_total s bs m, if m < length cs then Some (cs ! m) else None) \<and>
       (m < length cs \<longrightarrow> \<not> coalesce_merges s limit (fd (files s f0)) bs m)
       \<or>
       ngx_chain_coalesce_file pagesize s in' limit =
         coalesce_loop pagesize s limit (fd (files s f0)) (files_total s bs (m - 1)) (cs ! (m - 1)) \<and>
       limit - files_total s bs (m - 1) < file_size (bufs s (bs ! (m - 1)))"
    by blast
  from m have "m - 1 < length cs" by simp
  with assms(3) have bk: "buf (chains s (cs ! (m - 1))) = Some (bs ! (m - 1))"
    by (rule chain_bufs_nth)
  from res have "ngx_chain_coalesce_file pagesize s in' limit =
         Some (files_total s bs m, if m < length cs then Some (cs ! m) else None) \<and>
       (m < length cs \<longrightarrow> \<not> coalesce_merges s limit (fd (files s f0)) bs m)
       \<or>
       (\<exists>t. ngx_chain_coalesce_file pagesize s in' limit = Some (t, Some (cs ! (m - 1)))) \<and>
       limit - files_total s bs (m - 1) < file_size (bufs s (bs ! (m - 1)))"
    using coalesce_loop_cut_some [OF bk, of limit "files_total s bs (m - 1)" pagesize "fd (files s f0)"]
    by auto
  with m show "\<exists>m. 0 < m \<and> m \<le> length cs \<and>
      (\<forall>j. 0 < j \<and> j < m \<longrightarrow> coalesce_merges s limit (fd (files s f0)) bs j) \<and>
      (ngx_chain_coalesce_file pagesize s in' limit =
         Some (files_total s bs m, if m < length cs then Some (cs ! m) else None) \<and>
       (m < length cs \<longrightarrow> \<not> coalesce_merges s limit (fd (files s f0)) bs m)
       \<or>
       (\<exists>t. ngx_chain_coalesce_file pagesize s in' limit = Some (t, Some (cs ! (m - 1)))) \<and>
       limit - files_total s bs (m - 1) < file_size (bufs s (bs ! (m - 1))))"
    by blast
next
  assume ex: "length cs = 2 \<and>
     file_pos (bufs s (bs ! 0)) = 0 \<and> file_last (bufs s (bs ! 0)) = 100 \<and>
     file_pos (bufs s (bs ! 1)) = 100 \<and> file_last (bufs s (bs ! 1)) = 250 \<and>
     in_file (bufs s (bs ! 1)) \<and>
     (case file' (bufs s (bs ! 1)) of None \<Rightarrow> False | Some f \<Rightarrow> fd (files s f) = fd (files s f0)) \<and>
     limit = 1000"
  then obtain c1 c2 where cs: "cs = [c1, c2]"
    by (cases cs; cases "tl cs"; cases "tl (tl cs)") auto
  from assms(3) cs obtain b1 b2 where bs: "bs = [b1, b2]"
    by (cases bs; cases "tl bs"; cases "tl (tl bs)") (auto simp: chain_bufs_def)
  from ex bs obtain f2 where f2: "file' (bufs s b2) = Some f2" "fd (files s f2) = fd (files s f0)"
    by (auto split: option.splits)
  from assms(1) cs have hd: "in' = Some c1" by (simp add: is_chain_def)
  have b0: "buf (chains s c1) = Some b1" using assms(3) cs bs by (simp add: chain_bufs_def)
  have "coalesce_loop pagesize s limit (fd (files s f0)) 0 c1 = Some (250, None)"
    using assms(1,3) ex f2 unfolding cs bs hd
    by (intro coalesce_loop_two(1) [where ?b1.0 = b1 and ?b2.0 = b2 and ?c2.0 = c2 and ?f2.0 = f2]) simp_all
  then show "ngx_chain_coalesce_file pagesize s in' limit = Some (250, None)"
    using assms(5) by (simp add: ngx_chain_coalesce_file_def hd b0 bs)
qed


text \<open>The two-buffer chain of \<open>mem_files\<close> with the limit 1000 and 4096-byte pages.\<close>

theorem coalesce_file_merges_witness:
  "is_chain mem_files (Some 16) [16, 32] \<and> [16, 32] \<noteq> ([] :: addr list) \<and>
   chain_bufs mem_files [16, 32] [200, 300] \<and>
   in_file (bufs mem_files 200) \<and> file' (bufs mem_files 200) = Some 900 \<and>
   in_file (bufs mem_files 300) \<and> file' (bufs mem_files 300) = Some 900 \<and>
   coalesce_merges mem_files 1000 (fd (files mem_files 900)) [200, 300] 1 \<and>
   ngx_chain_coalesce_file 4096 mem_files (Some 16) 1000 = Some (250, None)"
proof -
  have h1: "is_chain mem_files (Some 16) [16, 32]"
    by (simp add: is_chain_def mem_files_def mem0_def)
  have h2: "[16, 32] \<noteq> ([] :: addr list)" by simp
  have h3: "chain_bufs mem_files [16, 32] [200, 300]"
    by (simp add: chain_bufs_def mem_files_def mem0_def)
  have h4: "\<forall>b\<in>set [200, 300]. in_file (bufs mem_files b) \<longrightarrow> file' (bufs mem_files b) \<noteq> None"
    by (simp add: mem_files_def mem0_def)
  have h5: "file' (bufs mem_files ([200, 300] ! 0)) = Some 900"
    by (simp add: mem_files_def mem0_def)
  have h6: "coalesce_merges mem_files 1000 (fd (files mem_files 900)) [200, 300] 1"
    by (simp add: coalesce_merges_def files_total_def file_size_def mem_files_def mem0_def)
  have "ngx_chain_coalesce_file 4096 mem_files (Some 16) 1000 = Some (250, None)"
    using coalesce_file_merges [OF h1 h2 h3 h4 h5, of 1000 4096]
    by (simp add: mem_files_def mem0_def)
  with h1 h2 h3 h6 show ?thesis by (simp add: mem_files_def mem0_def)
qed




section \<open>Sent-byte accounting\<close>

lemma update_sent_refines:
  "is_chain s in' cs \<Longrightarrow> chain_bufs s cs bs \<Longrightarrow>
   ngx_chain_update_sent sp im sz s in' sent =
     Some (if fst (advance_spec sp im sz (bufs s) bs sent) < length cs
           then Some (cs ! fst (advance_spec sp im sz (bufs s) bs sent)) else None,
           s\<lparr>bufs := snd (advance_spec sp im sz (bufs s) bs sent)\<rparr>)"
proof (induction cs arbitrary: s in' bs sent)
  case Nil
  then show ?case
    by (subst ngx_chain_update_sent.simps) (simp add: is_chain_def chain_bufs_def)
next
  case (Cons c cs)
  from Cons.prems(2) obtain b bs' where bs: "bs = b # bs'" and b: "buf (chains s c) = Some b"
    and cb': "chain_bufs s cs bs'"
    by (cases bs) (auto simp: chain_bufs_def)
  from Cons.prems(1) have hd: "in' = Some c" and ch': "is_chain s (next' (chains s c)) cs"
    by (simp_all add: is_chain_def)
  show ?case
  proof (cases "sp (bufs s b)")
    case True
    with Cons.IH [OF ch' cb', of sent] show ?thesis
      by (subst ngx_chain_update_sent.simps) (simp add: hd b bs Let_def)
  next
    case nsp: False
    show ?thesis
    proof (cases "sent = 0")
      case True
      with nsp show ?thesis
        by (subst ngx_chain_update_sent.simps) (simp add: hd b bs)
    next
      case nz: False
      show ?thesis
      proof (cases "sent \<ge> sz (bufs s b)")
        case False
        with nsp nz show ?thesis
          by (subst ngx_chain_update_sent.simps) (simp add: hd b bs Let_def buf_advanced_def)
      next
        case True
        define s2 where "s2 = s\<lparr>bufs := (bufs s)(b := buf_drained im (bufs s b))\<rparr>"
        have ch2: "is_chain s2 (next' (chains s2 c)) cs" using ch' by (simp add: s2_def is_chain_def)
        have cb2: "chain_bufs s2 cs bs'" using cb' by (simp add: s2_def chain_bufs_def)
        have b2: "bufs s2 = (bufs s)(b := buf_drained im (bufs s b))" by (simp add: s2_def)
        have u2: "\<And>f. s2\<lparr>bufs := f\<rparr> = s\<lparr>bufs := f\<rparr>" by (simp add: s2_def)
        have step: "ngx_chain_update_sent sp im sz s in' sent =
              ngx_chain_update_sent sp im sz s2 (next' (chains s2 c)) (sent - sz (bufs s b))"
          using nsp nz True
          by (subst ngx_chain_update_sent.simps) (simp add: hd b Let_def s2_def buf_drained_def)
        have spec: "advance_spec sp im sz (bufs s) bs sent =
            (Suc (fst (advance_spec sp im sz (bufs s2) bs' (sent - sz (bufs s b)))),
             snd (advance_spec sp im sz (bufs s2) bs' (sent - sz (bufs s b))))"
          using nsp nz True by (simp add: bs Let_def b2)
        show ?thesis
          unfolding step spec Cons.IH [OF ch2 cb2, of "sent - sz (bufs s b)"] u2
          by simp
      qed
    qed
  qed
qed

text \<open>
  C3.  On a well-formed chain \<open>cs\<close> with buffers \<open>bs\<close>, and for every \<open>sent\<close>,
  \<^verbatim>\<open>ngx_chain_update_sent\<close> returns, and does what section 4.4 of the spec says
  (\<open>advance_spec\<close>): special buffers are skipped, the walk stops at a buffer that is not
  special when \<open>sent = 0\<close>, a buffer of size at most \<open>sent\<close> is drained and its size
  subtracted, a larger one has its cursors advanced by \<open>sent\<close> and ends the walk; the
  returned link is the one where the walk stopped, or \<^verbatim>\<open>NULL\<close> past the last link, and
  nothing but the buffers on the way is written.  For three distinct buffers of sizes 10, 20
  and 30 and \<open>sent = 25\<close>: the first is drained, the second advanced by 15, the third
  untouched, and the second link is returned.
\<close>

theorem update_sent_advances:
  assumes "is_chain s in' cs" and "chain_bufs s cs bs"
  shows "ngx_chain_update_sent sp im sz s in' sent =
     Some (if fst (advance_spec sp im sz (bufs s) bs sent) < length cs
           then Some (cs ! fst (advance_spec sp im sz (bufs s) bs sent)) else None,
           s\<lparr>bufs := snd (advance_spec sp im sz (bufs s) bs sent)\<rparr>) \<and>
   (length cs = 3 \<and> distinct bs \<and> \<not> sp (bufs s (bs ! 0)) \<and> \<not> sp (bufs s (bs ! 1)) \<and>
    sz (bufs s (bs ! 0)) = 10 \<and> sz (bufs s (bs ! 1)) = 20 \<and> sz (bufs s (bs ! 2)) = 30 \<and>
    sent = 25 \<longrightarrow>
    (\<exists>s'. ngx_chain_update_sent sp im sz s in' sent = Some (Some (cs ! 1), s') \<and>
          bufs s' (bs ! 0) = buf_drained im (bufs s (bs ! 0)) \<and>
          bufs s' (bs ! 1) = buf_advanced im (bufs s (bs ! 1)) 15 \<and>
          bufs s' (bs ! 2) = bufs s (bs ! 2) \<and>
          chains s' = chains s))"
proof (intro conjI impI)
  show main: "ngx_chain_update_sent sp im sz s in' sent =
     Some (if fst (advance_spec sp im sz (bufs s) bs sent) < length cs
           then Some (cs ! fst (advance_spec sp im sz (bufs s) bs sent)) else None,
           s\<lparr>bufs := snd (advance_spec sp im sz (bufs s) bs sent)\<rparr>)"
    using assms by (rule update_sent_refines)
  assume ex: "length cs = 3 \<and> distinct bs \<and> \<not> sp (bufs s (bs ! 0)) \<and> \<not> sp (bufs s (bs ! 1)) \<and>
    sz (bufs s (bs ! 0)) = 10 \<and> sz (bufs s (bs ! 1)) = 20 \<and> sz (bufs s (bs ! 2)) = 30 \<and>
    sent = 25"
  have "length bs = 3" using assms(2) ex by (simp add: chain_bufs_length)
  then obtain b0 b1 b2 where bs: "bs = [b0, b1, b2]"
    by (cases bs; cases "tl bs"; cases "tl (tl bs)"; cases "tl (tl (tl bs))") auto
  from ex have d: "b0 \<noteq> b1" "b0 \<noteq> b2" "b1 \<noteq> b2" by (auto simp: bs)
  have spec: "advance_spec sp im sz (bufs s) bs sent =
      (1, (bufs s)(b0 := buf_drained im (bufs s b0), b1 := buf_advanced im (bufs s b1) 15))"
    using ex d by (simp add: bs Let_def)
  show "\<exists>s'. ngx_chain_update_sent sp im sz s in' sent = Some (Some (cs ! 1), s') \<and>
          bufs s' (bs ! 0) = buf_drained im (bufs s (bs ! 0)) \<and>
          bufs s' (bs ! 1) = buf_advanced im (bufs s (bs ! 1)) 15 \<and>
          bufs s' (bs ! 2) = bufs s (bs ! 2) \<and>
          chains s' = chains s"
    unfolding main spec using ex d by (simp add: bs)
qed

text \<open>The three memory buffers of \<open>mem_sent\<close>, with 25 bytes sent.\<close>

theorem update_sent_advances_witness:
  "is_chain mem_sent (Some 16) [16, 32, 48] \<and> chain_bufs mem_sent [16, 32, 48] [200, 300, 400] \<and>
   ngx_buf_size (bufs mem_sent 200) = 10 \<and> ngx_buf_size (bufs mem_sent 300) = 20 \<and>
   ngx_buf_size (bufs mem_sent 400) = 30 \<and>
   (\<exists>s'. ngx_chain_update_sent ngx_buf_special ngx_buf_in_memory ngx_buf_size mem_sent (Some 16) 25 =
           Some (Some 32, s') \<and>
         pos (bufs s' 200) = 1010 \<and> last' (bufs s' 200) = 1010 \<and>
         pos (bufs s' 300) = 2015 \<and> last' (bufs s' 300) = 2020 \<and>
         bufs s' 400 = bufs mem_sent 400)"
proof -
  have h1: "is_chain mem_sent (Some 16) [16, 32, 48]"
    by (simp add: is_chain_def mem_sent_def mem0_def)
  have h2: "chain_bufs mem_sent [16, 32, 48] [200, 300, 400]"
    by (simp add: chain_bufs_def mem_sent_def mem0_def)
  have sz: "ngx_buf_size (bufs mem_sent 200) = 10" "ngx_buf_size (bufs mem_sent 300) = 20"
    "ngx_buf_size (bufs mem_sent 400) = 30"
    by (simp_all add: ngx_buf_size_def ngx_buf_in_memory_def mem_sent_def mem0_def zero_buf_def)
  have sp: "\<not> ngx_buf_special (bufs mem_sent 200)" "\<not> ngx_buf_special (bufs mem_sent 300)"
    by (simp_all add: ngx_buf_special_def ngx_buf_in_memory_def mem_sent_def mem0_def zero_buf_def)
  have im: "ngx_buf_in_memory (bufs mem_sent 200)" "ngx_buf_in_memory (bufs mem_sent 300)"
    "\<not> in_file (bufs mem_sent 200)" "\<not> in_file (bufs mem_sent 300)"
    by (simp_all add: ngx_buf_in_memory_def mem_sent_def mem0_def zero_buf_def)
  have v: "pos (bufs mem_sent 300) = 2000" "last' (bufs mem_sent 300) = 2020"
    "last' (bufs mem_sent 200) = 1010"
    by (simp_all add: mem_sent_def mem0_def zero_buf_def)
  from update_sent_advances [OF h1 h2, of ngx_buf_special ngx_buf_in_memory ngx_buf_size 25]
  have "\<exists>s'. ngx_chain_update_sent ngx_buf_special ngx_buf_in_memory ngx_buf_size mem_sent (Some 16) 25 =
           Some (Some 32, s') \<and>
         bufs s' 200 = buf_drained ngx_buf_in_memory (bufs mem_sent 200) \<and>
         bufs s' 300 = buf_advanced ngx_buf_in_memory (bufs mem_sent 300) 15 \<and>
         bufs s' 400 = bufs mem_sent 400"
    using sz sp by simp
  then obtain s' where
    "ngx_chain_update_sent ngx_buf_special ngx_buf_in_memory ngx_buf_size mem_sent (Some 16) 25 =
           Some (Some 32, s')"
    "bufs s' 200 = buf_drained ngx_buf_in_memory (bufs mem_sent 200)"
    "bufs s' 300 = buf_advanced ngx_buf_in_memory (bufs mem_sent 300) 15"
    "bufs s' 400 = bufs mem_sent 400"
    by blast
  with im v have "ngx_chain_update_sent ngx_buf_special ngx_buf_in_memory ngx_buf_size mem_sent (Some 16) 25 =
           Some (Some 32, s') \<and>
         pos (bufs s' 200) = 1010 \<and> last' (bufs s' 200) = 1010 \<and>
         pos (bufs s' 300) = 2015 \<and> last' (bufs s' 300) = 2020 \<and>
         bufs s' 400 = bufs mem_sent 400"
    by (simp add: buf_drained_def buf_advanced_def)
  with h1 h2 sz show ?thesis by blast
qed

section \<open>Folding and recycling\<close>

lemma recycle_cong:
  assumes "\<And>b. b \<in> snd ` set kb \<Longrightarrow> bufs s' b = bufs s b"
  shows "reclaimed sz s' tg kb = reclaimed sz s tg kb"
    and "abandoned sz s' tg kb = abandoned sz s tg kb"
    and "still_busy sz s' kb = still_busy sz s kb"
proof -
  have d: "\<And>cb. cb \<in> set kb \<Longrightarrow> drained_head sz s' cb = drained_head sz s cb"
    using assms by (auto simp: drained_head_def)
  have t: "\<And>cb. cb \<in> set kb \<Longrightarrow> tag_matches s' tg cb = tag_matches s tg cb"
    using assms by (auto simp: tag_matches_def)
  have tw: "takeWhile (drained_head sz s') kb = takeWhile (drained_head sz s) kb"
    by (rule takeWhile_cong) (simp_all add: d)
  show "still_busy sz s' kb = still_busy sz s kb"
    unfolding still_busy_def by (rule dropWhile_cong) (simp_all add: d)
  have sub: "\<And>cb. cb \<in> set (takeWhile (drained_head sz s) kb) \<Longrightarrow> cb \<in> set kb"
    by (rule set_takeWhileD [THEN conjunct1])
  show "reclaimed sz s' tg kb = reclaimed sz s tg kb"
    unfolding reclaimed_def tw by (rule filter_cong) (simp_all add: t sub)
  show "abandoned sz s' tg kb = abandoned sz s tg kb"
    unfolding abandoned_def tw by (rule filter_cong) (simp_all add: t sub)
qed

lemma recycle_Nil [simp]:
  "reclaimed sz s tg [] = []" "abandoned sz s tg [] = []" "still_busy sz s [] = []"
  by (simp_all add: reclaimed_def abandoned_def still_busy_def)

lemma recycle_Cons:
  "reclaimed sz s tg ((c, b) # kb) =
     (if sz (bufs s b) \<noteq> 0 then []
      else if tag (bufs s b) = tg then (c, b) # reclaimed sz s tg kb else reclaimed sz s tg kb)"
  "abandoned sz s tg ((c, b) # kb) =
     (if sz (bufs s b) \<noteq> 0 then []
      else if tag (bufs s b) = tg then abandoned sz s tg kb else (c, b) # abandoned sz s tg kb)"
  "still_busy sz s ((c, b) # kb) =
     (if sz (bufs s b) \<noteq> 0 then (c, b) # kb else still_busy sz s kb)"
  by (simp_all add: reclaimed_def abandoned_def still_busy_def drained_head_def tag_matches_def)

lemma reclaimed_subset: "set (reclaimed sz s tg kb) \<subseteq> set kb"
  unfolding reclaimed_def by (auto dest: set_takeWhileD)

lemma update_chains_loop_run:
  assumes "is_chain s busy cs" and "chain_bufs s cs bs" and "distinct bs"
    and "is_chain s free fs" and "set fs \<inter> set cs = {}"
  shows "\<exists>free' busy' s'. update_chains_loop sz tg s busy free = Some (free', busy', s') \<and>
     is_chain s' busy' (map fst (still_busy sz s (zip cs bs))) \<and>
     is_chain s' free' (rev (map fst (reclaimed sz s tg (zip cs bs))) @ fs) \<and>
     (\<forall>ps. is_chain s (chain (pool s)) ps \<and> set ps \<inter> set cs = {} \<longrightarrow>
        is_chain s' (chain (pool s')) (rev (map fst (abandoned sz s tg (zip cs bs))) @ ps)) \<and>
     (\<forall>b. bufs s' b = (if b \<in> snd ` set (reclaimed sz s tg (zip cs bs))
                       then buf_reset (bufs s b) else bufs s b)) \<and>
     (\<forall>c. buf (chains s' c) = buf (chains s c)) \<and>
     (\<forall>c. c \<notin> set cs \<longrightarrow> chains s' c = chains s c) \<and>
     files s' = files s \<and> d_last (pool s') = d_last (pool s) \<and> d_end (pool s') = d_end (pool s)"
  using assms
proof (induction cs arbitrary: s busy free fs bs)
  case Nil
  then show ?case
    by (subst update_chains_loop.simps) simp
next
  case (Cons c cs)
  from Cons.prems(2) obtain b bs' where bs: "bs = b # bs'" and b: "buf (chains s c) = Some b"
    and cb': "chain_bufs s cs bs'"
    by auto
  from Cons.prems(1) have hd: "busy = Some c" and ch': "is_chain s (next' (chains s c)) cs"
    by simp_all
  from Cons.prems(1) have "distinct (c # cs)" by (rule is_chain_distinct)
  then have c_cs: "c \<notin> set cs" by simp
  from Cons.prems(5) have c_fs: "c \<notin> set fs" and fs_cs: "set fs \<inter> set cs = {}" by auto
  from Cons.prems(3) bs have b_bs': "b \<notin> set bs'" and d': "distinct bs'" by simp_all
  have mz: "map fst (zip cs bs') = cs"
    using chain_bufs_length [OF cb'] by (simp add: map_fst_zip)
  show ?case
  proof (cases "sz (bufs s b) \<noteq> 0")
    case True
    then have "update_chains_loop sz tg s busy free = Some (free, busy, s)"
      by (subst update_chains_loop.simps) (simp add: hd b)
    with True Cons.prems show ?thesis
      by (simp add: bs recycle_Cons hd mz)
  next
    case False
    then have z: "sz (bufs s b) = 0" by simp
    show ?thesis
    proof (cases "tag (bufs s b) = tg")
      case nt: False
      define s1 where "s1 = ngx_free_chain s c"
      have step: "update_chains_loop sz tg s busy free =
                  update_chains_loop sz tg s1 (next' (chains s c)) free"
        using z nt by (subst update_chains_loop.simps) (simp add: hd b s1_def)
      have nx1: "\<And>a. a \<noteq> c \<Longrightarrow> chains s1 a = chains s a"
        and b1: "bufs s1 = bufs s" and f1: "files s1 = files s"
        and bf1: "\<And>a. buf (chains s1 a) = buf (chains s a)"
        and p1: "chain (pool s1) = Some c" "next' (chains s1 c) = chain (pool s)"
                "d_last (pool s1) = d_last (pool s)" "d_end (pool s1) = d_end (pool s)"
        by (simp_all add: s1_def ngx_free_chain_def)
      have i1: "is_chain s1 (next' (chains s c)) cs"
        by (rule is_chain_frame [OF ch']) (metis c_cs nx1)
      have i2: "chain_bufs s1 cs bs'"
        by (rule chain_bufs_frame [OF cb']) (rule bf1)
      have i3: "is_chain s1 free fs"
        by (rule is_chain_frame [OF Cons.prems(4)]) (metis c_fs nx1)
      from Cons.IH [OF i1 i2 d' i3 fs_cs]
      obtain free' busy' s' where
        r: "update_chains_loop sz tg s1 (next' (chains s c)) free = Some (free', busy', s')"
           "is_chain s' busy' (map fst (still_busy sz s1 (zip cs bs')))"
           "is_chain s' free' (rev (map fst (reclaimed sz s1 tg (zip cs bs'))) @ fs)"
           "\<forall>ps. is_chain s1 (chain (pool s1)) ps \<and> set ps \<inter> set cs = {} \<longrightarrow>
              is_chain s' (chain (pool s')) (rev (map fst (abandoned sz s1 tg (zip cs bs'))) @ ps)"
           "\<forall>b. bufs s' b = (if b \<in> snd ` set (reclaimed sz s1 tg (zip cs bs'))
                       then buf_reset (bufs s1 b) else bufs s1 b)"
           "\<forall>c. buf (chains s' c) = buf (chains s1 c)"
           "\<forall>a. a \<notin> set cs \<longrightarrow> chains s' a = chains s1 a"
           "files s' = files s1" "d_last (pool s') = d_last (pool s1)" "d_end (pool s') = d_end (pool s1)"
        by blast
      have same: "\<And>x. x \<in> snd ` set (zip cs bs') \<Longrightarrow> bufs s1 x = bufs s x"
        by (simp add: b1)
      note cg = recycle_cong [OF same]
      have pl: "\<forall>ps. is_chain s (chain (pool s)) ps \<and> set ps \<inter> set (c # cs) = {} \<longrightarrow>
          is_chain s' (chain (pool s')) (rev (map fst (abandoned sz s tg (zip (c # cs) bs))) @ ps)"
      proof (intro allI impI)
        fix ps assume ps: "is_chain s (chain (pool s)) ps \<and> set ps \<inter> set (c # cs) = {}"
        then have c_ps: "c \<notin> set ps" and ps_cs: "set ps \<inter> set cs = {}" by auto
        have "is_chain s1 (chain (pool s)) ps"
          by (rule is_chain_frame [OF ps [THEN conjunct1]]) (metis c_ps nx1)
        then have "is_chain s1 (chain (pool s1)) (c # ps)"
          by (simp add: p1)
        moreover have "set (c # ps) \<inter> set cs = {}" using ps_cs c_cs by simp
        ultimately have "is_chain s' (chain (pool s')) (rev (map fst (abandoned sz s1 tg (zip cs bs'))) @ c # ps)"
          using r(4) by blast
        then show "is_chain s' (chain (pool s')) (rev (map fst (abandoned sz s tg (zip (c # cs) bs))) @ ps)"
          using z nt by (simp add: bs recycle_Cons cg)
      qed
      show ?thesis
        unfolding step
        apply (rule exI [of _ free'], rule exI [of _ busy'], rule exI [of _ s'])
        apply (intro conjI r(1) pl)
        using r(2,3,5,6,7,8,9,10) z nt
        by (simp_all add: bs recycle_Cons cg b1 bf1 f1 p1 nx1)
    next
      case t: True
      define s3 where "s3 = s\<lparr>bufs := (bufs s)(b := buf_reset (bufs s b)),
                               chains := (chains s)(c := (chains s c)\<lparr>next' := free\<rparr>)\<rparr>"
      have step: "update_chains_loop sz tg s busy free =
                  update_chains_loop sz tg s3 (next' (chains s c)) (Some c)"
        using z t by (subst update_chains_loop.simps) (simp add: hd b s3_def Let_def buf_reset_def)
      have nx3: "\<And>a. a \<noteq> c \<Longrightarrow> chains s3 a = chains s a"
        and b3: "bufs s3 = (bufs s)(b := buf_reset (bufs s b))" and f3: "files s3 = files s"
        and bf3: "\<And>a. buf (chains s3 a) = buf (chains s a)"
        and p3: "pool s3 = pool s" "next' (chains s3 c) = free"
        by (simp_all add: s3_def)
      have i1: "is_chain s3 (next' (chains s c)) cs"
        by (rule is_chain_frame [OF ch']) (metis c_cs nx3)
      have i2: "chain_bufs s3 cs bs'"
        by (rule chain_bufs_frame [OF cb']) (rule bf3)
      have "is_chain s3 free fs"
        by (rule is_chain_frame [OF Cons.prems(4)]) (metis c_fs nx3)
      then have i3: "is_chain s3 (Some c) (c # fs)" by (simp add: p3)
      have i5: "set (c # fs) \<inter> set cs = {}" using fs_cs c_cs by simp
      from Cons.IH [OF i1 i2 d' i3 i5]
      obtain free' busy' s' where
        r: "update_chains_loop sz tg s3 (next' (chains s c)) (Some c) = Some (free', busy', s')"
           "is_chain s' busy' (map fst (still_busy sz s3 (zip cs bs')))"
           "is_chain s' free' (rev (map fst (reclaimed sz s3 tg (zip cs bs'))) @ c # fs)"
           "\<forall>ps. is_chain s3 (chain (pool s3)) ps \<and> set ps \<inter> set cs = {} \<longrightarrow>
              is_chain s' (chain (pool s')) (rev (map fst (abandoned sz s3 tg (zip cs bs'))) @ ps)"
           "\<forall>b. bufs s' b = (if b \<in> snd ` set (reclaimed sz s3 tg (zip cs bs'))
                       then buf_reset (bufs s3 b) else bufs s3 b)"
           "\<forall>c. buf (chains s' c) = buf (chains s3 c)"
           "\<forall>a. a \<notin> set cs \<longrightarrow> chains s' a = chains s3 a"
           "files s' = files s3" "d_last (pool s') = d_last (pool s3)" "d_end (pool s') = d_end (pool s3)"
        by blast
      have same: "\<And>x. x \<in> snd ` set (zip cs bs') \<Longrightarrow> bufs s3 x = bufs s x"
        using b_bs' by (auto simp: b3 dest: set_zip_rightD)
      note cg = recycle_cong [OF same]
      have nb: "b \<notin> snd ` set (reclaimed sz s tg (zip cs bs'))"
        using b_bs' reclaimed_subset [of sz s tg "zip cs bs'"] by (auto dest: set_zip_rightD)
      have bufs': "\<forall>x. bufs s' x = (if x \<in> snd ` set (reclaimed sz s tg (zip (c # cs) bs))
                       then buf_reset (bufs s x) else bufs s x)"
        using r(5) z t nb by (auto simp: bs recycle_Cons cg b3)
      have pl: "\<forall>ps. is_chain s (chain (pool s)) ps \<and> set ps \<inter> set (c # cs) = {} \<longrightarrow>
          is_chain s' (chain (pool s')) (rev (map fst (abandoned sz s tg (zip (c # cs) bs))) @ ps)"
      proof (intro allI impI)
        fix ps assume ps: "is_chain s (chain (pool s)) ps \<and> set ps \<inter> set (c # cs) = {}"
        then have c_ps: "c \<notin> set ps" and ps_cs: "set ps \<inter> set cs = {}" by auto
        have "is_chain s3 (chain (pool s3)) ps"
          unfolding p3 by (rule is_chain_frame [OF ps [THEN conjunct1]]) (metis c_ps nx3)
        with ps_cs have "is_chain s' (chain (pool s')) (rev (map fst (abandoned sz s3 tg (zip cs bs'))) @ ps)"
          using r(4) by blast
        then show "is_chain s' (chain (pool s')) (rev (map fst (abandoned sz s tg (zip (c # cs) bs))) @ ps)"
          using z t by (simp add: bs recycle_Cons cg)
      qed
      show ?thesis
        unfolding step
        apply (rule exI [of _ free'], rule exI [of _ busy'], rule exI [of _ s'])
        apply (intro conjI r(1) bufs' pl)
        using r(2,3,6,7,8,9,10) z t
        by (simp_all add: bs recycle_Cons cg bf3 f3 p3 nx3)
    qed
  qed
qed

lemma update_chains_last_run:
  "is_chain s (Some c) (c # cs) \<Longrightarrow> update_chains_last s c = Some (last (c # cs))"
proof (induction cs arbitrary: c)
  case Nil
  then show ?case by (subst update_chains_last.simps) simp
next
  case (Cons d cs)
  then have "next' (chains s c) = Some d" and "is_chain s (Some d) (d # cs)" by simp_all
  with Cons.IH [of d] show ?case by (subst update_chains_last.simps) simp
qed

lemma chain_seg_redirect:
  "chain_seg nx p as None \<Longrightarrow> as \<noteq> [] \<Longrightarrow> distinct as \<Longrightarrow>
     chain_seg (nx(last as := q)) p as q"
proof (induction as arbitrary: p)
  case Nil
  then show ?case by simp
next
  case (Cons a as)
  show ?case
  proof (cases as)
    case Nil
    with Cons.prems show ?thesis by simp
  next
    case (Cons b bs)
    with Cons.prems Cons.IH [of "nx a"] show ?thesis by auto
  qed
qed

lemma is_chain_append_link:
  assumes "is_chain s p as" and "as \<noteq> []" and "is_chain s q os" and "set as \<inter> set os = {}"
  shows "is_chain (s\<lparr>chains := (chains s)(last as := (chains s (last as))\<lparr>next' := q\<rparr>)\<rparr>) p (as @ os)"
proof -
  let ?nx = "\<lambda>a. next' (chains s a)"
  let ?s' = "s\<lparr>chains := (chains s)(last as := (chains s (last as))\<lparr>next' := q\<rparr>)\<rparr>"
  have eq: "(\<lambda>a. next' (chains ?s' a)) = ?nx(last as := q)" by (rule ext) simp
  from assms(1) have d: "distinct as" by (rule is_chain_distinct)
  from assms(2) have "last as \<in> set as" by simp
  with assms(4) have l: "last as \<notin> set os" by auto
  have "chain_seg (?nx(last as := q)) p as q"
    using assms(1,2) d unfolding is_chain_def by (rule chain_seg_redirect)
  moreover have "chain_seg (?nx(last as := q)) q os None"
    using assms(3) l unfolding is_chain_def by (simp add: chain_seg_upd)
  ultimately show ?thesis
    unfolding is_chain_def eq chain_seg_append by blast
qed

lemma update_chains_fold_run:
  assumes "is_chain s busy bs0" and "is_chain s out os" and "set bs0 \<inter> set os = {}"
  shows "\<exists>busy1 s1. update_chains_fold s busy out = Some (busy1, None, s1) \<and>
     is_chain s1 busy1 (bs0 @ os) \<and> bufs s1 = bufs s \<and> pool s1 = pool s \<and> files s1 = files s \<and>
     (\<forall>c. buf (chains s1 c) = buf (chains s c)) \<and>
     (\<forall>c. c \<notin> set bs0 \<longrightarrow> chains s1 c = chains s c)"
proof (cases out)
  case None
  with assms show ?thesis by (simp add: update_chains_fold_def)
next
  case (Some o1)
  show ?thesis
  proof (cases bs0)
    case Nil
    with assms Some show ?thesis by (simp add: update_chains_fold_def)
  next
    case (Cons c cs)
    with assms(1) have hd: "busy = Some c" by simp
    from assms(1) have l: "update_chains_last s c = Some (last bs0)"
      unfolding Cons hd by (rule update_chains_last_run)
    have ne: "bs0 \<noteq> []" using Cons by simp
    then have "last bs0 \<in> set bs0" by simp
    with is_chain_append_link [OF assms(1) ne assms(2,3)] show ?thesis
      by (simp add: update_chains_fold_def Some hd l)
  qed
qed

lemma update_chains_run:
  assumes busy: "is_chain s busy bs0" and out: "is_chain s out os" and free: "is_chain s free fs"
    and dl: "distinct (bs0 @ os @ fs)"
    and cb: "chain_bufs s (bs0 @ os) bfs" and db: "distinct bfs"
  shows "\<exists>free' busy' s'. ngx_chain_update_chains sz s free busy out tg = Some (free', busy', None, s') \<and>
     is_chain s' busy' (map fst (still_busy sz s (zip (bs0 @ os) bfs))) \<and>
     is_chain s' free' (rev (map fst (reclaimed sz s tg (zip (bs0 @ os) bfs))) @ fs) \<and>
     (\<forall>ps. is_chain s (chain (pool s)) ps \<and> set ps \<inter> set (bs0 @ os) = {} \<longrightarrow>
        is_chain s' (chain (pool s')) (rev (map fst (abandoned sz s tg (zip (bs0 @ os) bfs))) @ ps)) \<and>
     (\<forall>b. bufs s' b = (if b \<in> snd ` set (reclaimed sz s tg (zip (bs0 @ os) bfs))
                       then buf_reset (bufs s b) else bufs s b)) \<and>
     (\<forall>c. buf (chains s' c) = buf (chains s c)) \<and>
     (\<forall>c. c \<notin> set (bs0 @ os) \<longrightarrow> chains s' c = chains s c)"
proof -
  from dl have d1: "set bs0 \<inter> set os = {}" and d2: "set fs \<inter> set (bs0 @ os) = {}" by auto
  from update_chains_fold_run [OF busy out d1] obtain busy1 s1 where
    f: "update_chains_fold s busy out = Some (busy1, None, s1)"
       "is_chain s1 busy1 (bs0 @ os)" "bufs s1 = bufs s" "pool s1 = pool s"
       "\<forall>c. buf (chains s1 c) = buf (chains s c)"
       "\<forall>c. c \<notin> set bs0 \<longrightarrow> chains s1 c = chains s c"
    by blast
  have cb1: "chain_bufs s1 (bs0 @ os) bfs"
    by (rule chain_bufs_frame [OF cb]) (simp add: f(5))
  have fr1: "is_chain s1 free fs"
    by (rule is_chain_frame [OF free]) (use d2 f(6) in auto)
  have same: "\<And>x. x \<in> snd ` set (zip (bs0 @ os) bfs) \<Longrightarrow> bufs s1 x = bufs s x"
    by (simp add: f(3))
  note cg = recycle_cong [OF same]
  from update_chains_loop_run [OF f(2) cb1 db fr1 d2, of sz tg]
  obtain free' busy' s' where
    r: "update_chains_loop sz tg s1 busy1 free = Some (free', busy', s')"
       "is_chain s' busy' (map fst (still_busy sz s1 (zip (bs0 @ os) bfs)))"
       "is_chain s' free' (rev (map fst (reclaimed sz s1 tg (zip (bs0 @ os) bfs))) @ fs)"
       "\<forall>ps. is_chain s1 (chain (pool s1)) ps \<and> set ps \<inter> set (bs0 @ os) = {} \<longrightarrow>
          is_chain s' (chain (pool s')) (rev (map fst (abandoned sz s1 tg (zip (bs0 @ os) bfs))) @ ps)"
       "\<forall>b. bufs s' b = (if b \<in> snd ` set (reclaimed sz s1 tg (zip (bs0 @ os) bfs))
                       then buf_reset (bufs s1 b) else bufs s1 b)"
       "\<forall>c. buf (chains s' c) = buf (chains s1 c)"
       "\<forall>c. c \<notin> set (bs0 @ os) \<longrightarrow> chains s' c = chains s1 c"
    by blast
  have pl: "\<forall>ps. is_chain s (chain (pool s)) ps \<and> set ps \<inter> set (bs0 @ os) = {} \<longrightarrow>
        is_chain s' (chain (pool s')) (rev (map fst (abandoned sz s tg (zip (bs0 @ os) bfs))) @ ps)"
  proof (intro allI impI)
    fix ps assume ps: "is_chain s (chain (pool s)) ps \<and> set ps \<inter> set (bs0 @ os) = {}"
    have "is_chain s1 (chain (pool s)) ps"
      by (rule is_chain_frame [OF ps [THEN conjunct1]]) (use ps f(6) in auto)
    with ps r(4) show "is_chain s' (chain (pool s')) (rev (map fst (abandoned sz s tg (zip (bs0 @ os) bfs))) @ ps)"
      by (simp add: f(4) cg)
  qed
  have top: "ngx_chain_update_chains sz s free busy out tg = Some (free', busy', None, s')"
    by (simp add: ngx_chain_update_chains_def f(1) r(1))
  show ?thesis
    apply (rule exI [of _ free'], rule exI [of _ busy'], rule exI [of _ s'])
    apply (intro conjI top pl)
    using r(2,3,5,6,7) f(3,5,6)
    by (simp_all add: cg)
qed

lemma recycle_parts_subset:
  "set (reclaimed sz s tg kb) \<subseteq> set (takeWhile (drained_head sz s) kb)"
  "set (abandoned sz s tg kb) \<subseteq> set (takeWhile (drained_head sz s) kb)"
  by (auto simp: reclaimed_def abandoned_def)

lemma still_busy_snd_fresh:
  assumes "distinct (map snd kb)" and "cb \<in> set (still_busy sz s kb)"
  shows "snd cb \<notin> snd ` set (takeWhile (drained_head sz s) kb)"
proof -
  have "distinct (map snd (takeWhile (drained_head sz s) kb @ dropWhile (drained_head sz s) kb))"
    using assms(1) by simp
  then have "snd ` set (takeWhile (drained_head sz s) kb) \<inter> snd ` set (dropWhile (drained_head sz s) kb) = {}"
    unfolding map_append distinct_append by simp
  with assms(2) show ?thesis by (auto simp: still_busy_def)
qed

lemma still_busy_fst_fresh:
  assumes "distinct (map fst kb)" and "cb \<in> set (still_busy sz s kb)"
  shows "fst cb \<notin> fst ` set (takeWhile (drained_head sz s) kb)"
proof -
  have "distinct (map fst (takeWhile (drained_head sz s) kb @ dropWhile (drained_head sz s) kb))"
    using assms(1) by simp
  then have "fst ` set (takeWhile (drained_head sz s) kb) \<inter> fst ` set (dropWhile (drained_head sz s) kb) = {}"
    unfolding map_append distinct_append by simp
  with assms(2) show ?thesis by (auto simp: still_busy_def)
qed

lemma abandoned_not_reclaimed:
  assumes "distinct (map fst kb)" and "cb \<in> set (abandoned sz s tg kb)"
  shows "fst cb \<notin> fst ` set (reclaimed sz s tg kb)"
proof
  assume "fst cb \<in> fst ` set (reclaimed sz s tg kb)"
  then obtain cb' where cb': "cb' \<in> set (reclaimed sz s tg kb)" "fst cb' = fst cb" by auto
  from assms(2) cb'(1) have in_kb: "cb \<in> set kb" "cb' \<in> set kb"
    by (auto simp: abandoned_def reclaimed_def dest: set_takeWhileD)
  from assms(1) have "inj_on fst (set kb)" by (simp add: distinct_map)
  with in_kb cb'(2) have "cb' = cb" by (auto dest: inj_onD)
  with assms(2) cb'(1) show False by (auto simp: abandoned_def reclaimed_def)
qed

lemma abandoned_buf_not_reclaimed:
  assumes "cb \<in> set (abandoned sz s tg kb)"
  shows "snd cb \<notin> snd ` set (reclaimed sz s tg kb)"
  using assms by (auto simp: abandoned_def reclaimed_def tag_matches_def)

lemma zip_three:
  assumes "length cs = 3" and "length bs = length cs"
  shows "zip cs bs = [(cs ! 0, bs ! 0), (cs ! 1, bs ! 1), (cs ! 2, bs ! 2)]"
    and "cs = [cs ! 0, cs ! 1, cs ! 2]" and "bs = [bs ! 0, bs ! 1, bs ! 2]"
proof -
  from assms obtain a b c where cs: "cs = [a, b, c]"
    by (cases cs; cases "tl cs"; cases "tl (tl cs)"; cases "tl (tl (tl cs))") auto
  from assms obtain x y z where bs: "bs = [x, y, z]"
    by (cases bs; cases "tl bs"; cases "tl (tl bs)"; cases "tl (tl (tl bs))") auto
  show "zip cs bs = [(cs ! 0, bs ! 0), (cs ! 1, bs ! 1), (cs ! 2, bs ! 2)]"
    and "cs = [cs ! 0, cs ! 1, cs ! 2]" and "bs = [bs ! 0, bs ! 1, bs ! 2]"
    by (simp_all add: cs bs)
qed

text \<open>
  C1.  Let \<^verbatim>\<open>*busy\<close>, \<^verbatim>\<open>*out\<close> and \<^verbatim>\<open>*free\<close> be well-formed chains that share
  no link, the links of busy and out referring to pairwise distinct buffers \<open>bfs\<close>.
  Then \<^verbatim>\<open>ngx_chain_update_chains\<close> returns with \<^verbatim>\<open>*out\<close> cleared, having worked on
  busy followed by out: the drained heads with the given tag are now at the head of
  \<^verbatim>\<open>*free\<close> in reverse of their drain order, before the old free links, each with its
  buffer's \<^verbatim>\<open>pos\<close> and \<^verbatim>\<open>last\<close> set to \<^verbatim>\<open>start\<close> and no other field changed;
  \<^verbatim>\<open>*busy\<close> is what follows the drained prefix, from the first head that is not
  drained, in the original order and with the buffers as they were; no link changes its
  buffer reference.  For a busy chain of three drained buffers with the tag and an empty out,
  busy ends empty and free is the three links in reverse order.
\<close>

theorem update_chains_recycles:
  assumes "is_chain s busy bs0" and "is_chain s out os" and "is_chain s free fs"
    and "distinct (bs0 @ os @ fs)"
    and "chain_bufs s (bs0 @ os) bfs" and "distinct bfs"
  shows "(\<exists>free' busy' s'.
       ngx_chain_update_chains sz s free busy out tg = Some (free', busy', None, s') \<and>
       is_chain s' free' (rev (map fst (reclaimed sz s tg (zip (bs0 @ os) bfs))) @ fs) \<and>
       is_chain s' busy' (map fst (still_busy sz s (zip (bs0 @ os) bfs))) \<and>
       (\<forall>cb\<in>set (reclaimed sz s tg (zip (bs0 @ os) bfs)).
          bufs s' (snd cb) = (bufs s (snd cb))\<lparr>pos := start (bufs s (snd cb)),
                                              last' := start (bufs s (snd cb))\<rparr>) \<and>
       (\<forall>cb\<in>set (still_busy sz s (zip (bs0 @ os) bfs)). bufs s' (snd cb) = bufs s (snd cb)) \<and>
       (\<forall>c. buf (chains s' c) = buf (chains s c))) \<and>
    (length bs0 = 3 \<and> os = [] \<and> (\<forall>b\<in>set bfs. sz (bufs s b) = 0 \<and> tag (bufs s b) = tg) \<longrightarrow>
       (\<exists>free' s'.
          ngx_chain_update_chains sz s free busy out tg = Some (free', None, None, s') \<and>
          is_chain s' free' ([bs0 ! 2, bs0 ! 1, bs0 ! 0] @ fs)))"
proof -
  let ?kb = "zip (bs0 @ os) bfs"
  from update_chains_run [OF assms, of sz tg] obtain free' busy' s' where
    r: "ngx_chain_update_chains sz s free busy out tg = Some (free', busy', None, s')"
       "is_chain s' busy' (map fst (still_busy sz s ?kb))"
       "is_chain s' free' (rev (map fst (reclaimed sz s tg ?kb)) @ fs)"
       "\<forall>b. bufs s' b = (if b \<in> snd ` set (reclaimed sz s tg ?kb)
                       then buf_reset (bufs s b) else bufs s b)"
       "\<forall>c. buf (chains s' c) = buf (chains s c)"
    by blast
  have len: "length bfs = length (bs0 @ os)" using assms(5) by (rule chain_bufs_length)
  have ds: "distinct (map snd ?kb)" using assms(6) len by (simp add: map_snd_zip)
  have a: "\<forall>cb\<in>set (reclaimed sz s tg ?kb).
          bufs s' (snd cb) = (bufs s (snd cb))\<lparr>pos := start (bufs s (snd cb)),
                                              last' := start (bufs s (snd cb))\<rparr>"
    using r(4) by (auto simp: buf_reset_def)
  have b: "\<forall>cb\<in>set (still_busy sz s ?kb). bufs s' (snd cb) = bufs s (snd cb)"
  proof
    fix cb assume "cb \<in> set (still_busy sz s ?kb)"
    from still_busy_snd_fresh [OF ds this] recycle_parts_subset(1) [of sz s tg ?kb]
    have "snd cb \<notin> snd ` set (reclaimed sz s tg ?kb)" by auto
    with r(4) show "bufs s' (snd cb) = bufs s (snd cb)" by simp
  qed
  have ex: "length bs0 = 3 \<and> os = [] \<and> (\<forall>b\<in>set bfs. sz (bufs s b) = 0 \<and> tag (bufs s b) = tg) \<longrightarrow>
       (\<exists>free' s'.
          ngx_chain_update_chains sz s free busy out tg = Some (free', None, None, s') \<and>
          is_chain s' free' ([bs0 ! 2, bs0 ! 1, bs0 ! 0] @ fs))"
  proof
    assume h: "length bs0 = 3 \<and> os = [] \<and> (\<forall>b\<in>set bfs. sz (bufs s b) = 0 \<and> tag (bufs s b) = tg)"
    with len have l3: "length bs0 = 3" "length bfs = length bs0" by simp_all
    note z = zip_three [OF l3]
    from h have all: "sz (bufs s (bfs ! 0)) = 0" "sz (bufs s (bfs ! 1)) = 0" "sz (bufs s (bfs ! 2)) = 0"
      "tag (bufs s (bfs ! 0)) = tg" "tag (bufs s (bfs ! 1)) = tg" "tag (bufs s (bfs ! 2)) = tg"
      using l3 by simp_all
    from h have kb: "?kb = [(bs0 ! 0, bfs ! 0), (bs0 ! 1, bfs ! 1), (bs0 ! 2, bfs ! 2)]"
      using z(1) by simp
    have "still_busy sz s ?kb = []"
      and "reclaimed sz s tg ?kb = [(bs0 ! 0, bfs ! 0), (bs0 ! 1, bfs ! 1), (bs0 ! 2, bfs ! 2)]"
      unfolding kb using all by (simp_all add: recycle_Cons)
    with r(1,2,3) show "\<exists>free' s'.
          ngx_chain_update_chains sz s free busy out tg = Some (free', None, None, s') \<and>
          is_chain s' free' ([bs0 ! 2, bs0 ! 1, bs0 ! 0] @ fs)"
      by auto
  qed
  from r(1,2,3,5) a b ex show ?thesis by blast
qed

text \<open>
  C4.  With the chains as for C1 and the pool's free list a well-formed chain \<open>ps\<close> that
  shares no link with busy and out: the drained heads whose tag differs from the given tag
  are afterwards at the head of the pool's free list (in reverse of their drain order), none
  of them is in \<^verbatim>\<open>*free\<close> or left in \<^verbatim>\<open>*busy\<close>, and their buffers are exactly as
  before; the drained heads behind them are still processed.  For a busy chain of three
  drained buffers of which the second has another tag, free is the third and the first link,
  the second link is on the pool's free list and its buffer is untouched.
\<close>

theorem update_chains_abandons:
  assumes "is_chain s busy bs0" and "is_chain s out os" and "is_chain s free fs"
    and "distinct (bs0 @ os @ fs)"
    and "chain_bufs s (bs0 @ os) bfs" and "distinct bfs"
    and "is_chain s (chain (pool s)) ps" and "set ps \<inter> set (bs0 @ os) = {}"
  shows "(\<exists>free' busy' s'.
       ngx_chain_update_chains sz s free busy out tg = Some (free', busy', None, s') \<and>
       is_chain s' (chain (pool s')) (rev (map fst (abandoned sz s tg (zip (bs0 @ os) bfs))) @ ps) \<and>
       is_chain s' free' (rev (map fst (reclaimed sz s tg (zip (bs0 @ os) bfs))) @ fs) \<and>
       is_chain s' busy' (map fst (still_busy sz s (zip (bs0 @ os) bfs))) \<and>
       (\<forall>cb\<in>set (abandoned sz s tg (zip (bs0 @ os) bfs)).
          fst cb \<notin> set (rev (map fst (reclaimed sz s tg (zip (bs0 @ os) bfs))) @ fs) \<and>
          fst cb \<notin> set (map fst (still_busy sz s (zip (bs0 @ os) bfs))) \<and>
          bufs s' (snd cb) = bufs s (snd cb))) \<and>
    (length bs0 = 3 \<and> os = [] \<and> (\<forall>b\<in>set bfs. sz (bufs s b) = 0) \<and>
     tag (bufs s (bfs ! 0)) = tg \<and> tag (bufs s (bfs ! 1)) \<noteq> tg \<and> tag (bufs s (bfs ! 2)) = tg \<longrightarrow>
       (\<exists>free' s'.
          ngx_chain_update_chains sz s free busy out tg = Some (free', None, None, s') \<and>
          is_chain s' free' ([bs0 ! 2, bs0 ! 0] @ fs) \<and>
          is_chain s' (chain (pool s')) (bs0 ! 1 # ps) \<and>
          bufs s' (bfs ! 1) = bufs s (bfs ! 1)))"
proof -
  let ?kb = "zip (bs0 @ os) bfs"
  from update_chains_run [OF assms(1-6), of sz tg] obtain free' busy' s' where
    r: "ngx_chain_update_chains sz s free busy out tg = Some (free', busy', None, s')"
       "is_chain s' busy' (map fst (still_busy sz s ?kb))"
       "is_chain s' free' (rev (map fst (reclaimed sz s tg ?kb)) @ fs)"
       "\<forall>ps. is_chain s (chain (pool s)) ps \<and> set ps \<inter> set (bs0 @ os) = {} \<longrightarrow>
          is_chain s' (chain (pool s')) (rev (map fst (abandoned sz s tg ?kb)) @ ps)"
       "\<forall>b. bufs s' b = (if b \<in> snd ` set (reclaimed sz s tg ?kb)
                       then buf_reset (bufs s b) else bufs s b)"
    by blast
  from r(4) assms(7,8) have pl: "is_chain s' (chain (pool s')) (rev (map fst (abandoned sz s tg ?kb)) @ ps)"
    by blast
  have len: "length bfs = length (bs0 @ os)" using assms(5) by (rule chain_bufs_length)
  from assms(4) have "distinct (bs0 @ os)" by auto
  then have df: "distinct (map fst ?kb)" using len by (simp only: map_fst_zip)
  have ab: "\<forall>cb\<in>set (abandoned sz s tg ?kb).
          fst cb \<notin> set (rev (map fst (reclaimed sz s tg ?kb)) @ fs) \<and>
          fst cb \<notin> set (map fst (still_busy sz s ?kb)) \<and>
          bufs s' (snd cb) = bufs s (snd cb)"
  proof
    fix cb assume cb: "cb \<in> set (abandoned sz s tg ?kb)"
    then have tw: "cb \<in> set (takeWhile (drained_head sz s) ?kb)"
      using recycle_parts_subset(2) [of sz s tg ?kb] by auto
    then have "cb \<in> set ?kb" by (auto dest: set_takeWhileD)
    then have "(fst cb, snd cb) \<in> set ?kb" by simp
    then have "fst cb \<in> set (bs0 @ os)" by (rule set_zip_leftD)
    with assms(4) have nf: "fst cb \<notin> set fs" by auto
    have nr: "fst cb \<notin> fst ` set (reclaimed sz s tg ?kb)"
      using df cb by (rule abandoned_not_reclaimed)
    have nb: "fst cb \<notin> fst ` set (still_busy sz s ?kb)"
    proof
      assume "fst cb \<in> fst ` set (still_busy sz s ?kb)"
      then obtain cb' where c': "cb' \<in> set (still_busy sz s ?kb)" "fst cb' = fst cb" by auto
      from still_busy_fst_fresh [OF df c'(1)] tw c'(2) show False by (metis imageI)
    qed
    have "snd cb \<notin> snd ` set (reclaimed sz s tg ?kb)"
      using cb by (rule abandoned_buf_not_reclaimed)
    with r(5) have "bufs s' (snd cb) = bufs s (snd cb)" by simp
    with nf nr nb show "fst cb \<notin> set (rev (map fst (reclaimed sz s tg ?kb)) @ fs) \<and>
          fst cb \<notin> set (map fst (still_busy sz s ?kb)) \<and>
          bufs s' (snd cb) = bufs s (snd cb)"
      by simp
  qed
  have ex: "length bs0 = 3 \<and> os = [] \<and> (\<forall>b\<in>set bfs. sz (bufs s b) = 0) \<and>
     tag (bufs s (bfs ! 0)) = tg \<and> tag (bufs s (bfs ! 1)) \<noteq> tg \<and> tag (bufs s (bfs ! 2)) = tg \<longrightarrow>
       (\<exists>free' s'.
          ngx_chain_update_chains sz s free busy out tg = Some (free', None, None, s') \<and>
          is_chain s' free' ([bs0 ! 2, bs0 ! 0] @ fs) \<and>
          is_chain s' (chain (pool s')) (bs0 ! 1 # ps) \<and>
          bufs s' (bfs ! 1) = bufs s (bfs ! 1))"
  proof
    assume h: "length bs0 = 3 \<and> os = [] \<and> (\<forall>b\<in>set bfs. sz (bufs s b) = 0) \<and>
     tag (bufs s (bfs ! 0)) = tg \<and> tag (bufs s (bfs ! 1)) \<noteq> tg \<and> tag (bufs s (bfs ! 2)) = tg"
    with len have l3: "length bs0 = 3" "length bfs = length bs0" by simp_all
    note z = zip_three [OF l3]
    from h have all: "sz (bufs s (bfs ! 0)) = 0" "sz (bufs s (bfs ! 1)) = 0" "sz (bufs s (bfs ! 2)) = 0"
      "tag (bufs s (bfs ! 0)) = tg" "tag (bufs s (bfs ! 1)) \<noteq> tg" "tag (bufs s (bfs ! 2)) = tg"
      using l3 by simp_all
    from h have kb: "?kb = [(bs0 ! 0, bfs ! 0), (bs0 ! 1, bfs ! 1), (bs0 ! 2, bfs ! 2)]"
      using z(1) by simp
    have parts: "still_busy sz s ?kb = []"
      "reclaimed sz s tg ?kb = [(bs0 ! 0, bfs ! 0), (bs0 ! 2, bfs ! 2)]"
      "abandoned sz s tg ?kb = [(bs0 ! 1, bfs ! 1)]"
      unfolding kb using all by (simp_all add: recycle_Cons)
    from assms(6) z(3) have "distinct [bfs ! 0, bfs ! 1, bfs ! 2]" by simp
    then have "bfs ! 1 \<noteq> bfs ! 0" "bfs ! 1 \<noteq> bfs ! 2" by auto
    with r(5) parts(2) have "bufs s' (bfs ! 1) = bufs s (bfs ! 1)" by simp
    with r(1,2,3) pl parts show "\<exists>free' s'.
          ngx_chain_update_chains sz s free busy out tg = Some (free', None, None, s') \<and>
          is_chain s' free' ([bs0 ! 2, bs0 ! 0] @ fs) \<and>
          is_chain s' (chain (pool s')) (bs0 ! 1 # ps) \<and>
          bufs s' (bfs ! 1) = bufs s (bfs ! 1)"
      by auto
  qed
  from r(1,2,3) pl ab ex show ?thesis by blast
qed

text \<open>The busy chain of \<open>mem_busy\<close>, recycled with the tag 7, free and out being empty.\<close>

theorem update_chains_recycles_witness:
  "is_chain mem_busy (Some 16) [16, 32, 48] \<and> is_chain mem_busy None [] \<and>
   distinct ([16, 32, 48] @ [] @ ([] :: addr list)) \<and>
   chain_bufs mem_busy ([16, 32, 48] @ []) [200, 300, 400] \<and> distinct [200, 300, 400 :: addr] \<and>
   ngx_buf_size (bufs mem_busy 200) = 0 \<and> ngx_buf_size (bufs mem_busy 300) = 0 \<and>
   ngx_buf_size (bufs mem_busy 400) = 0 \<and>
   tag (bufs mem_busy 200) = 7 \<and> tag (bufs mem_busy 300) = 7 \<and> tag (bufs mem_busy 400) = 7 \<and>
   (\<exists>s'. ngx_chain_update_chains ngx_buf_size mem_busy None (Some 16) None 7 =
            Some (Some 48, None, None, s') \<and>
         is_chain s' (Some 48) [48, 32, 16] \<and>
         pos (bufs s' 200) = 1000 \<and> last' (bufs s' 200) = 1000 \<and>
         pos (bufs s' 400) = 3000 \<and> last' (bufs s' 400) = 3000)"
proof -
  have h1: "is_chain mem_busy (Some 16) [16, 32, 48]" and h2: "is_chain mem_busy None []"
    by (simp_all add: mem_busy_def mem0_def)
  have h4: "distinct ([16, 32, 48] @ [] @ ([] :: addr list))" by simp
  have h5: "chain_bufs mem_busy ([16, 32, 48] @ []) [200, 300, 400]"
    by (simp add: mem_busy_def mem0_def)
  have h6: "distinct [200, 300, 400 :: addr]" by simp
  have sz: "ngx_buf_size (bufs mem_busy 200) = 0" "ngx_buf_size (bufs mem_busy 300) = 0"
    "ngx_buf_size (bufs mem_busy 400) = 0"
    by (simp_all add: ngx_buf_size_def ngx_buf_in_memory_def mem_busy_def mem0_def zero_buf_def)
  have tg: "tag (bufs mem_busy 200) = 7" "tag (bufs mem_busy 300) = 7" "tag (bufs mem_busy 400) = 7"
    by (simp_all add: mem_busy_def mem0_def zero_buf_def)
  have st: "start (bufs mem_busy 200) = 1000" "start (bufs mem_busy 400) = 3000"
    by (simp_all add: mem_busy_def mem0_def zero_buf_def)
  have rc: "reclaimed ngx_buf_size mem_busy 7 (zip ([16, 32, 48] @ []) [200, 300, 400]) =
      [(16, 200), (32, 300), (48, 400)]"
    using sz tg by (simp add: recycle_Cons)
  have sb: "still_busy ngx_buf_size mem_busy (zip ([16, 32, 48] @ []) [200, 300, 400]) = []"
    using sz by (simp add: recycle_Cons)
  from update_chains_recycles [OF h1 h2 h2 h4 h5 h6, of ngx_buf_size 7, THEN conjunct1]
  obtain free' busy' s' where
    r: "ngx_chain_update_chains ngx_buf_size mem_busy None (Some 16) None 7 = Some (free', busy', None, s')"
       "is_chain s' free' [48, 32, 16]" "is_chain s' busy' []"
       "bufs s' 200 = (bufs mem_busy 200)\<lparr>pos := start (bufs mem_busy 200), last' := start (bufs mem_busy 200)\<rparr>"
       "bufs s' 400 = (bufs mem_busy 400)\<lparr>pos := start (bufs mem_busy 400), last' := start (bufs mem_busy 400)\<rparr>"
    unfolding rc sb by auto
  from r(2,3) have "free' = Some 48" "busy' = None" by simp_all
  with r st have "ngx_chain_update_chains ngx_buf_size mem_busy None (Some 16) None 7 =
            Some (Some 48, None, None, s') \<and>
         is_chain s' (Some 48) [48, 32, 16] \<and>
         pos (bufs s' 200) = 1000 \<and> last' (bufs s' 200) = 1000 \<and>
         pos (bufs s' 400) = 3000 \<and> last' (bufs s' 400) = 3000"
    by simp
  then show ?thesis using h1 h2 h4 h5 h6 sz tg by blast
qed

text \<open>The busy chain of \<open>mem_busy_u\<close>, whose second buffer has the tag 9, recycled with the tag 7.\<close>

theorem update_chains_abandons_witness:
  "is_chain mem_busy_u (Some 16) [16, 32, 48] \<and> is_chain mem_busy_u None [] \<and>
   distinct ([16, 32, 48] @ [] @ ([] :: addr list)) \<and>
   chain_bufs mem_busy_u ([16, 32, 48] @ []) [200, 300, 400] \<and> distinct [200, 300, 400 :: addr] \<and>
   is_chain mem_busy_u (chain (pool mem_busy_u)) [] \<and>
   ngx_buf_size (bufs mem_busy_u 200) = 0 \<and> ngx_buf_size (bufs mem_busy_u 300) = 0 \<and>
   ngx_buf_size (bufs mem_busy_u 400) = 0 \<and>
   tag (bufs mem_busy_u 200) = 7 \<and> tag (bufs mem_busy_u 300) = 9 \<and> tag (bufs mem_busy_u 400) = 7 \<and>
   (\<exists>s'. ngx_chain_update_chains ngx_buf_size mem_busy_u None (Some 16) None 7 =
            Some (Some 48, None, None, s') \<and>
         is_chain s' (Some 48) [48, 16] \<and>
         is_chain s' (chain (pool s')) [32] \<and>
         bufs s' 300 = bufs mem_busy_u 300)"
proof -
  have h1: "is_chain mem_busy_u (Some 16) [16, 32, 48]" and h2: "is_chain mem_busy_u None []"
    by (simp_all add: mem_busy_u_def mem0_def)
  have h4: "distinct ([16, 32, 48] @ [] @ ([] :: addr list))" by simp
  have h5: "chain_bufs mem_busy_u ([16, 32, 48] @ []) [200, 300, 400]"
    by (simp add: mem_busy_u_def mem0_def)
  have h6: "distinct [200, 300, 400 :: addr]" by simp
  have h7: "is_chain mem_busy_u (chain (pool mem_busy_u)) []"
    by (simp add: mem_busy_u_def mem0_def)
  have h8: "set ([] :: addr list) \<inter> set ([16, 32, 48] @ []) = {}" by simp
  have sz: "ngx_buf_size (bufs mem_busy_u 200) = 0" "ngx_buf_size (bufs mem_busy_u 300) = 0"
    "ngx_buf_size (bufs mem_busy_u 400) = 0"
    by (simp_all add: ngx_buf_size_def ngx_buf_in_memory_def mem_busy_u_def mem0_def zero_buf_def)
  have tg: "tag (bufs mem_busy_u 200) = 7" "tag (bufs mem_busy_u 300) = 9" "tag (bufs mem_busy_u 400) = 7"
    by (simp_all add: mem_busy_u_def mem0_def zero_buf_def)
  have ex: "length [16, 32, 48 :: addr] = 3 \<and> ([] :: addr list) = [] \<and>
     (\<forall>b\<in>set [200, 300, 400]. ngx_buf_size (bufs mem_busy_u b) = 0) \<and>
     tag (bufs mem_busy_u ([200, 300, 400] ! 0)) = 7 \<and> tag (bufs mem_busy_u ([200, 300, 400] ! 1)) \<noteq> 7 \<and>
     tag (bufs mem_busy_u ([200, 300, 400] ! 2)) = 7"
    using sz tg by simp
  from update_chains_abandons [OF h1 h2 h2 h4 h5 h6 h7 h8, of ngx_buf_size 7, THEN conjunct2, rule_format, OF ex]
  obtain free' s' where
    r: "ngx_chain_update_chains ngx_buf_size mem_busy_u None (Some 16) None 7 = Some (free', None, None, s')"
       "is_chain s' free' [48, 16]" "is_chain s' (chain (pool s')) [32]"
       "bufs s' 300 = bufs mem_busy_u 300"
    by auto
  from r(2) have "free' = Some 48" by simp
  with r have "ngx_chain_update_chains ngx_buf_size mem_busy_u None (Some 16) None 7 =
            Some (Some 48, None, None, s') \<and>
         is_chain s' (Some 48) [48, 16] \<and>
         is_chain s' (chain (pool s')) [32] \<and>
         bufs s' 300 = bufs mem_busy_u 300"
    by simp
  then show ?thesis using h1 h2 h4 h5 h6 h7 sz tg by blast
qed

section \<open>Appending a copy of a chain\<close>

lemma add_copy_end_run:
  "chain_seg (\<lambda>a. next' (chains s a)) cl cs None \<Longrightarrow>
     add_copy_end s ll cl = Some (if cs = [] then ll else Next_of (last cs))"
proof (induction cs arbitrary: cl ll)
  case Nil
  then show ?case by (subst add_copy_end.simps) simp
next
  case (Cons c cs)
  then have "cl = Some c" and "chain_seg (\<lambda>a. next' (chains s a)) (next' (chains s c)) cs None"
    by simp_all
  with Cons.IH [of "next' (chains s c)" "Next_of c"] show ?case
    by (subst add_copy_end.simps) simp
qed

lemma is_chain_open:
  assumes "is_chain s chain_v ds"
  shows "open_chain s chain_v (if ds = [] then Chain_var else Next_of (last ds)) ds"
proof (cases "ds = []")
  case True
  then show ?thesis by (simp add: open_chain_def)
next
  case False
  then have ds: "ds = butlast ds @ [last ds]" by simp
  from assms have "chain_seg (\<lambda>a. next' (chains s a)) chain_v (butlast ds @ [last ds]) None"
    unfolding is_chain_def using ds by simp
  then have "chain_seg (\<lambda>a. next' (chains s a)) chain_v (butlast ds) (Some (last ds))"
    unfolding chain_seg_append by auto
  with False is_chain_distinct [OF assms] show ?thesis by (simp add: open_chain_def)
qed

lemma open_chain_close:
  assumes "open_chain s chain_v ll as"
  shows "is_chain (snd (store_ll ll None (chain_v, s))) (fst (store_ll ll None (chain_v, s))) as"
proof (cases ll)
  case Chain_var
  with assms show ?thesis by (simp add: open_chain_def store_ll_def)
next
  case (Next_of l)
  with assms have ne: "as \<noteq> []" and l: "last as = l" and d: "distinct as"
    and seg: "chain_seg (\<lambda>a. next' (chains s a)) chain_v (butlast as) (Some l)"
    by (simp_all add: open_chain_def)
  from ne l have as: "as = butlast as @ [l]" by (metis append_butlast_last_id)
  with d have nl: "l \<notin> set (butlast as)" by (metis distinct_append distinct.simps(2) disjoint_iff list.set_intros(1) not_distinct_conv_prefix)
  let ?nx = "\<lambda>a. next' (chains s a)"
  have eq: "(\<lambda>a. next' (chains (snd (store_ll ll None (chain_v, s))) a)) = ?nx(l := None)"
    by (rule ext) (simp add: store_ll_def Next_of)
  have "chain_seg (?nx(l := None)) chain_v (butlast as) (Some l)"
    using seg nl by (simp add: chain_seg_upd)
  then have "chain_seg (?nx(l := None)) chain_v (butlast as @ [l]) None"
    unfolding chain_seg_append by auto
  with as show ?thesis
    unfolding is_chain_def eq by (simp add: store_ll_def Next_of)
qed

lemma open_chain_extend:
  assumes "open_chain s chain_v ll as" and "cl \<notin> set as"
  shows "open_chain (snd (store_ll ll (Some cl) (chain_v, s))) (fst (store_ll ll (Some cl) (chain_v, s)))
           (Next_of cl) (as @ [cl])"
proof (cases ll)
  case Chain_var
  with assms show ?thesis by (simp add: open_chain_def store_ll_def)
next
  case (Next_of l)
  with assms have ne: "as \<noteq> []" and l: "last as = l" and d: "distinct as"
    and seg: "chain_seg (\<lambda>a. next' (chains s a)) chain_v (butlast as) (Some l)"
    by (simp_all add: open_chain_def)
  from ne l have as: "as = butlast as @ [l]" by (metis append_butlast_last_id)
  with d have nl: "l \<notin> set (butlast as)" by (metis distinct_append distinct.simps(2) disjoint_iff list.set_intros(1) not_distinct_conv_prefix)
  let ?nx = "\<lambda>a. next' (chains s a)"
  have eq: "(\<lambda>a. next' (chains (snd (store_ll ll (Some cl) (chain_v, s))) a)) = ?nx(l := Some cl)"
    by (rule ext) (simp add: store_ll_def Next_of)
  have "chain_seg (?nx(l := Some cl)) chain_v (butlast as) (Some l)"
    using seg nl by (simp add: chain_seg_upd)
  then have "chain_seg (?nx(l := Some cl)) chain_v (butlast as @ [l]) (Some cl)"
    unfolding chain_seg_append by auto
  with as have "chain_seg (?nx(l := Some cl)) chain_v as (Some cl)" by simp
  with assms(2) d show ?thesis
    unfolding open_chain_def eq by (simp add: store_ll_def Next_of)
qed

lemma store_ll_frame:
  "bufs (snd (store_ll ll v (c, s))) = bufs s"
  "pool (snd (store_ll ll v (c, s))) = pool s"
  "files (snd (store_ll ll v (c, s))) = files s"
  "buf (chains (snd (store_ll ll v (c, s))) a) = buf (chains s a)"
  "ll \<noteq> Next_of a \<Longrightarrow> chains (snd (store_ll ll v (c, s))) a = chains s a"
  by (cases ll; simp add: store_ll_def)+

lemma open_chain_cong:
  assumes "\<And>a. next' (chains s' a) = next' (chains s a)"
  shows "open_chain s' c ll as = open_chain s c ll as"
proof -
  have e: "(\<lambda>a. next' (chains s' a)) = (\<lambda>a. next' (chains s a))"
    by (rule ext) (rule assms)
  show ?thesis unfolding open_chain_def e by (rule refl)
qed

lemma open_chain_ll: "open_chain s c ll as \<Longrightarrow> ll = Next_of a \<Longrightarrow> a \<in> set as"
  by (auto simp: open_chain_def)

lemma alloc_chain_link_cases [consumes 1, case_names fail link]:
  assumes "is_chain s (chain (pool s)) ps"
  obtains "fst (ngx_alloc_chain_link s) = None" and "chain (pool s) = None"
      and "d_end (pool s) < d_last (pool s) + sizeof_ngx_chain_t"
      and "snd (ngx_alloc_chain_link s) = s"
    | cl ps' where "fst (ngx_alloc_chain_link s) = Some cl"
      and "chains (snd (ngx_alloc_chain_link s)) = chains s"
      and "bufs (snd (ngx_alloc_chain_link s)) = bufs s"
      and "files (snd (ngx_alloc_chain_link s)) = files s"
      and "is_chain (snd (ngx_alloc_chain_link s)) (chain (pool (snd (ngx_alloc_chain_link s)))) ps'"
      and "d_end (pool (snd (ngx_alloc_chain_link s))) = d_end (pool s)"
      and "ps = cl # ps' \<and> d_last (pool (snd (ngx_alloc_chain_link s))) = d_last (pool s)
           \<or> ps = [] \<and> ps' = [] \<and> cl = d_last (pool s) \<and>
             d_last (pool s) + sizeof_ngx_chain_t \<le> d_end (pool s) \<and>
             d_last (pool (snd (ngx_alloc_chain_link s))) = d_last (pool s) + sizeof_ngx_chain_t"
proof (cases "chain (pool s)")
  case (Some cl)
  with assms obtain ps' where ps: "ps = cl # ps'" and t: "is_chain s (next' (chains s cl)) ps'"
    by (cases ps) auto
  have "is_chain (s\<lparr>pool := (pool s)\<lparr>chain := next' (chains s cl)\<rparr>\<rparr>) (next' (chains s cl)) ps'"
    by (rule is_chain_frame [OF t]) simp
  with Some ps show ?thesis
    by (intro that(2) [of cl ps']) (simp_all add: ngx_alloc_chain_link_def)
next
  case None
  with assms have ps: "ps = []" by simp
  show ?thesis
  proof (cases "d_last (pool s) + sizeof_ngx_chain_t \<le> d_end (pool s)")
    case True
    with None ps show ?thesis
      by (intro that(2) [of "d_last (pool s)" "[]"])
         (simp_all add: ngx_alloc_chain_link_def ngx_palloc_def)
  next
    case False
    with None ps show ?thesis
      by (intro that(1)) (simp_all add: ngx_alloc_chain_link_def ngx_palloc_def)
  qed
qed

lemma arena_links_empty:
  "d_end p < d_last p + sizeof_ngx_chain_t \<Longrightarrow> arena_links p = []"
  by (simp add: arena_links_def sizeof_ngx_chain_t_def)

lemma arena_links_cong:
  "d_last p' = d_last p \<Longrightarrow> d_end p' = d_end p \<Longrightarrow> arena_links p' = arena_links p"
  by (simp add: arena_links_def)

lemma arena_links_step:
  assumes "d_last p + sizeof_ngx_chain_t \<le> d_end p"
    and "d_last p' = d_last p + sizeof_ngx_chain_t" and "d_end p' = d_end p"
  shows "arena_links p = d_last p # arena_links p'"
proof -
  let ?n = "(d_end p' - d_last p') div sizeof_ngx_chain_t"
  have n: "(d_end p - d_last p) div sizeof_ngx_chain_t = Suc ?n"
    using assms by (simp add: sizeof_ngx_chain_t_def)
  have "[0..<Suc ?n] = 0 # map Suc [0..<?n]"
    by (simp add: upt_conv_Cons map_Suc_upt del: upt_Suc)
  then show ?thesis
    unfolding arena_links_def n by (simp add: assms(2) comp_def del: upt_Suc)
qed

lemma add_copy_loop_run:
  assumes "open_chain s chain_v ll as" and "is_chain s in' is"
    and "is_chain s (chain (pool s)) ps"
    and "distinct (as @ is @ ps)" and "\<forall>a\<in>set (as @ is @ ps). a < d_last (pool s)"
  shows "\<exists>rc c' s' ns. add_copy_loop s in' chain_v ll = Some (rc, c', s') \<and>
      is_chain s' c' (as @ ns) \<and>
      (\<forall>a\<in>set ns. a \<in> set ps \<or> d_last (pool s) \<le> a) \<and>
      map (\<lambda>c. buf (chains s' c)) ns = take (length ns) (map (\<lambda>c. buf (chains s c)) is) \<and>
      (rc = NGX_OK \<and> length ns = length is \<or>
       rc = NGX_ERROR \<and> length ns < length is \<and> chain (pool s') = None \<and>
       d_end (pool s') < d_last (pool s') + sizeof_ngx_chain_t) \<and>
      (rc = NGX_OK \<longleftrightarrow>
         length is \<le> length ps + (d_end (pool s) - d_last (pool s)) div sizeof_ngx_chain_t) \<and>
      (\<forall>a. a \<notin> set ns \<and> ll \<noteq> Next_of a \<longrightarrow> chains s' a = chains s a) \<and>
      (\<forall>a. a \<notin> set ns \<longrightarrow> buf (chains s' a) = buf (chains s a)) \<and>
      bufs s' = bufs s \<and> files s' = files s \<and>
      ns = take (length is) (ps @ arena_links (pool s))"
  using assms
proof (induction "is" arbitrary: s in' chain_v ll as ps)
  case Nil
  then have in': "in' = None" by simp
  have "add_copy_loop s in' chain_v ll =
      Some (NGX_OK, fst (store_ll ll None (chain_v, s)), snd (store_ll ll None (chain_v, s)))"
    by (subst add_copy_loop.simps) (simp add: in')
  moreover note open_chain_close [OF Nil.prems(1)]
  ultimately show ?case
    by (intro exI [of _ NGX_OK] exI [of _ "fst (store_ll ll None (chain_v, s))"]
              exI [of _ "snd (store_ll ll None (chain_v, s))"] exI [of _ "[]"])
       (simp add: store_ll_frame)
next
  case (Cons i "is")
  from Cons.prems(2) have in': "in' = Some i" and tl: "is_chain s (next' (chains s i)) is"
    by simp_all
  let ?r = "ngx_alloc_chain_link s"
  from Cons.prems(3) show ?case
  proof (cases rule: alloc_chain_link_cases)
    case fail
    note f = fail
    have "add_copy_loop s in' chain_v ll =
        Some (NGX_ERROR, fst (store_ll ll None (chain_v, s)), snd (store_ll ll None (chain_v, s)))"
      by (subst add_copy_loop.simps) (simp add: in' f Let_def)
    moreover note open_chain_close [OF Cons.prems(1)]
    moreover from Cons.prems(3) f(2) have "ps = []" by simp
    moreover from f(3) have "(d_end (pool s) - d_last (pool s)) div sizeof_ngx_chain_t = 0"
      by (simp add: sizeof_ngx_chain_t_def)
    moreover note arena_links_empty [OF f(3)]
    ultimately show ?thesis
      using f(2,3)
      by (intro exI [of _ NGX_ERROR] exI [of _ "fst (store_ll ll None (chain_v, s))"]
                exI [of _ "snd (store_ll ll None (chain_v, s))"] exI [of _ "[]"])
         (simp add: store_ll_frame NGX_OK_def NGX_ERROR_def)
  next
    case (link cl ps')
    note a = link(1-5) and de = link(6) and src' = link(7)
    from src' have src: "ps = cl # ps' \<and> d_last (pool (snd ?r)) = d_last (pool s)
           \<or> ps = [] \<and> ps' = [] \<and> cl = d_last (pool s) \<and> d_last (pool s) < d_last (pool (snd ?r))"
      by (auto simp: sizeof_ngx_chain_t_def)
    define s1 where "s1 = snd ?r"
    define s2 where "s2 = s1\<lparr>chains := (chains s1)(cl := (chains s1 cl)\<lparr>buf := buf (chains s1 i)\<rparr>)\<rparr>"
    define c3 where "c3 = fst (store_ll ll (Some cl) (chain_v, s2))"
    define s3 where "s3 = snd (store_ll ll (Some cl) (chain_v, s2))"
    note a1 = a(2-5) [folded s1_def]
    have step: "add_copy_loop s in' chain_v ll = add_copy_loop s3 (next' (chains s3 i)) c3 (Next_of cl)"
      by (subst add_copy_loop.simps) (simp add: in' a(1) Let_def s1_def s2_def s3_def c3_def)
    \<comment> \<open>where the new link comes from\<close>
    from src Cons.prems(4,5) have cl_as: "cl \<notin> set as" and cl_is: "cl \<notin> set (i # is)"
      and cl_ps': "cl \<notin> set ps'" and sub: "set ps' \<subseteq> set ps"
      and origin: "cl \<in> set ps \<or> d_last (pool s) \<le> cl"
      and dl: "d_last (pool s) \<le> d_last (pool s1)" and cl_lt: "cl < d_last (pool s1)"
      unfolding s1_def by auto
    \<comment> \<open>the memory after the three assignments\<close>
    have ch2: "\<And>x. x \<noteq> cl \<Longrightarrow> chains s2 x = chains s x"
      and nx2: "\<And>x. next' (chains s2 x) = next' (chains s x)"
      and bf2: "buf (chains s2 cl) = buf (chains s i)"
      and b2: "bufs s2 = bufs s" "files s2 = files s" "pool s2 = pool s1"
      by (simp_all add: s2_def a1)
    have ch3: "\<And>x. x \<noteq> cl \<Longrightarrow> ll \<noteq> Next_of x \<Longrightarrow> chains s3 x = chains s x"
      and bf3: "\<And>x. x \<noteq> cl \<Longrightarrow> buf (chains s3 x) = buf (chains s x)"
      and bf3cl: "buf (chains s3 cl) = buf (chains s i)"
      and b3: "bufs s3 = bufs s" "files s3 = files s" "pool s3 = pool s1"
      by (simp_all add: s3_def store_ll_frame ch2 bf2 b2)
    have ll_as: "\<And>x. ll = Next_of x \<Longrightarrow> x \<in> set as"
      using Cons.prems(1) by (rule open_chain_ll)
    \<comment> \<open>the hypotheses of the induction hypothesis\<close>
    have "open_chain s2 chain_v ll as"
      using Cons.prems(1) by (subst open_chain_cong [where s = s]) (simp_all add: nx2)
    then have i1: "open_chain s3 c3 (Next_of cl) (as @ [cl])"
      unfolding s3_def c3_def using cl_as by (rule open_chain_extend)
    have keep: "\<And>x. x \<in> set (i # is) \<union> set ps' \<Longrightarrow> chains s3 x = chains s x"
    proof -
      fix x assume x: "x \<in> set (i # is) \<union> set ps'"
      with cl_is cl_ps' have "x \<noteq> cl" by auto
      moreover from x sub Cons.prems(4) have "x \<notin> set as" by auto
      then have "ll \<noteq> Next_of x" using ll_as by blast
      ultimately show "chains s3 x = chains s x" by (rule ch3)
    qed
    have "is_chain s3 (next' (chains s i)) is"
      by (rule is_chain_frame [OF tl]) (simp add: keep)
    then have i2: "is_chain s3 (next' (chains s3 i)) is" by (simp add: keep)
    have "is_chain s1 (chain (pool s3)) ps'" using a1(4) by (simp add: b3)
    then have i3: "is_chain s3 (chain (pool s3)) ps'"
      by (rule is_chain_frame) (simp add: keep a1(1))
    have i4: "distinct ((as @ [cl]) @ is @ ps')"
      using Cons.prems(4) src cl_as cl_is cl_ps' by auto
    have i5: "\<forall>a\<in>set ((as @ [cl]) @ is @ ps'). a < d_last (pool s3)"
    proof
      fix x assume "x \<in> set ((as @ [cl]) @ is @ ps')"
      with sub have "x = cl \<or> x \<in> set (as @ (i # is) @ ps)" by auto
      then show "x < d_last (pool s3)"
      proof
        assume "x = cl" with cl_lt show ?thesis by (simp add: b3)
      next
        assume "x \<in> set (as @ (i # is) @ ps)"
        with Cons.prems(5) have "x < d_last (pool s)" by blast
        with dl show ?thesis by (simp add: b3)
      qed
    qed
    from Cons.IH [OF i1 i2 i3 i4 i5] obtain rc c' s' ns where
      r: "add_copy_loop s3 (next' (chains s3 i)) c3 (Next_of cl) = Some (rc, c', s')"
         "is_chain s' c' ((as @ [cl]) @ ns)"
         "\<forall>a\<in>set ns. a \<in> set ps' \<or> d_last (pool s3) \<le> a"
         "map (\<lambda>c. buf (chains s' c)) ns = take (length ns) (map (\<lambda>c. buf (chains s3 c)) is)"
         "rc = NGX_OK \<and> length ns = length is \<or>
          rc = NGX_ERROR \<and> length ns < length is \<and> chain (pool s') = None \<and>
          d_end (pool s') < d_last (pool s') + sizeof_ngx_chain_t"
         "rc = NGX_OK \<longleftrightarrow>
            length is \<le> length ps' + (d_end (pool s3) - d_last (pool s3)) div sizeof_ngx_chain_t"
         "\<forall>a. a \<notin> set ns \<and> Next_of cl \<noteq> Next_of a \<longrightarrow> chains s' a = chains s3 a"
         "\<forall>a. a \<notin> set ns \<longrightarrow> buf (chains s' a) = buf (chains s3 a)"
         "bufs s' = bufs s3" "files s' = files s3"
         "ns = take (length is) (ps' @ arena_links (pool s3))"
      by blast
    note r89 = r(9,10)
    from r(2) have "distinct ((as @ [cl]) @ ns)" by (rule is_chain_distinct)
    then have cl_ns: "cl \<notin> set ns" by auto
    have c1: "is_chain s' c' (as @ cl # ns)" using r(2) by simp
    have c2: "\<forall>a\<in>set (cl # ns). a \<in> set ps \<or> d_last (pool s) \<le> a"
      using r(3) origin sub dl by (auto simp: b3)
    have "map (\<lambda>c. buf (chains s3 c)) is = map (\<lambda>c. buf (chains s c)) is"
      by (rule map_cong) (simp_all add: keep)
    with r(4) r(8) cl_ns have c3': "map (\<lambda>c. buf (chains s' c)) (cl # ns) =
        take (length (cl # ns)) (map (\<lambda>c. buf (chains s c)) (i # is))"
      by (simp add: bf3cl)
    have c4: "rc = NGX_OK \<and> length (cl # ns) = length (i # is) \<or>
          rc = NGX_ERROR \<and> length (cl # ns) < length (i # is) \<and> chain (pool s') = None \<and>
          d_end (pool s') < d_last (pool s') + sizeof_ngx_chain_t"
      using r(5) by auto
    have cnt: "Suc (length ps' + (d_end (pool s3) - d_last (pool s3)) div sizeof_ngx_chain_t) =
        length ps + (d_end (pool s) - d_last (pool s)) div sizeof_ngx_chain_t"
      using src' de unfolding b3 s1_def sizeof_ngx_chain_t_def by (elim disjE conjE) simp_all
    have c4': "rc = NGX_OK \<longleftrightarrow>
        length (i # is) \<le> length ps + (d_end (pool s) - d_last (pool s)) div sizeof_ngx_chain_t"
      unfolding r(6) cnt [symmetric] by simp
    have c5: "\<forall>a. a \<notin> set (cl # ns) \<and> ll \<noteq> Next_of a \<longrightarrow> chains s' a = chains s a"
      using r(7) ch3 by auto
    have c6: "\<forall>a. a \<notin> set (cl # ns) \<longrightarrow> buf (chains s' a) = buf (chains s a)"
      using r(8) bf3 by auto
    have c7: "cl # ns = take (length (i # is)) (ps @ arena_links (pool s))"
      using src'
    proof (elim disjE conjE)
      assume "ps = cl # ps'" and "d_last (pool (snd ?r)) = d_last (pool s)"
      with de have "arena_links (pool s3) = arena_links (pool s)"
        unfolding b3 s1_def by (intro arena_links_cong) simp_all
      with r(11) \<open>ps = cl # ps'\<close> show ?thesis by simp
    next
      assume e: "ps = []" "ps' = []" "cl = d_last (pool s)"
        and room: "d_last (pool s) + sizeof_ngx_chain_t \<le> d_end (pool s)"
        and adv: "d_last (pool (snd ?r)) = d_last (pool s) + sizeof_ngx_chain_t"
      from room adv de have "arena_links (pool s) = d_last (pool s) # arena_links (pool s3)"
        unfolding b3 s1_def by (rule arena_links_step)
      with r(11) e show ?thesis by simp
    qed
    show ?thesis
      unfolding step
      apply (rule exI [of _ rc], rule exI [of _ c'], rule exI [of _ s'], rule exI [of _ "cl # ns"])
      using r(1) c1 c2 c3' c4 c4' c5 c6 r89 b3 c7 by simp
  qed
qed

lemma add_copy_run:
  assumes ds: "is_chain s chain_v ds" and src: "is_chain s in' is"
    and ps: "is_chain s (chain (pool s)) ps"
    and dl: "distinct (ds @ is @ ps)" and fr: "\<forall>a\<in>set (ds @ is @ ps). a < d_last (pool s)"
  shows "\<exists>rc c' s' ns. ngx_chain_add_copy s chain_v in' = Some (rc, c', s') \<and>
      is_chain s' c' (ds @ ns) \<and> set ns \<inter> set (ds @ is) = {} \<and>
      map (\<lambda>c. buf (chains s' c)) ns = take (length ns) (map (\<lambda>c. buf (chains s c)) is) \<and>
      (rc = NGX_OK \<and> length ns = length is \<or>
       rc = NGX_ERROR \<and> length ns < length is \<and> chain (pool s') = None \<and>
       d_end (pool s') < d_last (pool s') + sizeof_ngx_chain_t) \<and>
      (rc = NGX_OK \<longleftrightarrow>
         length is \<le> length ps + (d_end (pool s) - d_last (pool s)) div sizeof_ngx_chain_t) \<and>
      (\<forall>a\<in>set is. chains s' a = chains s a) \<and> is_chain s' in' is \<and>
      (\<forall>a\<in>set ds. buf (chains s' a) = buf (chains s a)) \<and>
      bufs s' = bufs s \<and>
      ns = take (length is) (ps @ arena_links (pool s))"
proof -
  let ?ll = "if ds = [] then Chain_var else Next_of (last ds)"
  have e: "add_copy_end s Chain_var chain_v = Some ?ll"
    using ds unfolding is_chain_def by (rule add_copy_end_run)
  note o = is_chain_open [OF ds]
  from add_copy_loop_run [OF o src ps dl fr] obtain rc c' s' ns where
    r: "add_copy_loop s in' chain_v ?ll = Some (rc, c', s')"
       "is_chain s' c' (ds @ ns)"
       "\<forall>a\<in>set ns. a \<in> set ps \<or> d_last (pool s) \<le> a"
       "map (\<lambda>c. buf (chains s' c)) ns = take (length ns) (map (\<lambda>c. buf (chains s c)) is)"
       "rc = NGX_OK \<and> length ns = length is \<or>
        rc = NGX_ERROR \<and> length ns < length is \<and> chain (pool s') = None \<and>
        d_end (pool s') < d_last (pool s') + sizeof_ngx_chain_t"
       "rc = NGX_OK \<longleftrightarrow>
         length is \<le> length ps + (d_end (pool s) - d_last (pool s)) div sizeof_ngx_chain_t"
       "\<forall>a. a \<notin> set ns \<and> ?ll \<noteq> Next_of a \<longrightarrow> chains s' a = chains s a"
       "\<forall>a. a \<notin> set ns \<longrightarrow> buf (chains s' a) = buf (chains s a)"
       "bufs s' = bufs s"
       "ns = take (length is) (ps @ arena_links (pool s))"
    by blast
  have top: "ngx_chain_add_copy s chain_v in' = Some (rc, c', s')"
    by (simp add: ngx_chain_add_copy_def e r(1))
  have dj: "set ns \<inter> set (ds @ is) = {}"
  proof (rule ccontr)
    assume "set ns \<inter> set (ds @ is) \<noteq> {}"
    then obtain a where a: "a \<in> set ns" "a \<in> set (ds @ is)" by auto
    from a(2) fr have "a < d_last (pool s)" by auto
    with r(3) a(1) have "a \<in> set ps" by auto
    with a(2) dl show False by auto
  qed
  have keep: "\<forall>a\<in>set is. chains s' a = chains s a"
  proof
    fix a assume a: "a \<in> set is"
    with dj have "a \<notin> set ns" by auto
    moreover have "?ll \<noteq> Next_of a"
    proof (cases "ds = []")
      case False
      then have "last ds \<in> set ds" by simp
      with a dl have "last ds \<noteq> a" by auto
      with False show ?thesis by simp
    qed simp
    ultimately show "chains s' a = chains s a" using r(7) by blast
  qed
  have src': "is_chain s' in' is"
    by (rule is_chain_frame [OF src]) (simp add: keep)
  have bd: "\<forall>a\<in>set ds. buf (chains s' a) = buf (chains s a)"
    using r(8) dj by auto
  show ?thesis
    apply (rule exI [of _ rc], rule exI [of _ c'], rule exI [of _ s'], rule exI [of _ ns])
    using top r(2) dj r(4) r(5) r(6) keep src' bd r(9) r(10) by blast
qed




text \<open>
  C7.  With the chains as for C6, \<^verbatim>\<open>ngx_chain_add_copy\<close> returns \<^verbatim>\<open>NGX_ERROR\<close>
  exactly when the source has more links than the pool's free list and the arena can give.
  Then every link that could be had was appended and is still there: the destination is a
  well-formed chain of its old links, followed by all the links \<open>ps\<close> of the pool's free
  list and then all the links \<open>arena_links\<close> that the arena had room for, and the last
  link of this chain has a null successor.  The appended links refer, in order, to the
  buffers of the first source links; none of them is a link of the source or of the old
  destination; the old links keep their buffers, no buffer is written, and the allocator is
  exhausted (empty free list, no room for a link).
\<close>

theorem add_copy_failure_keeps_chain:
  assumes "is_chain s chain_v ds" and "is_chain s in' is"
    and "is_chain s (chain (pool s)) ps"
    and "distinct (ds @ is @ ps)" and "\<forall>a\<in>set (ds @ is @ ps). a < d_last (pool s)"
  shows "\<exists>rc c' s'. ngx_chain_add_copy s chain_v in' = Some (rc, c', s') \<and>
      (rc = NGX_OK \<or> rc = NGX_ERROR) \<and>
      (rc = NGX_ERROR \<longleftrightarrow>
         length ps + (d_end (pool s) - d_last (pool s)) div sizeof_ngx_chain_t < length is) \<and>
      (rc = NGX_ERROR \<longrightarrow>
         is_chain s' c' (ds @ ps @ arena_links (pool s)) \<and>
         (ds @ ps @ arena_links (pool s) \<noteq> [] \<longrightarrow>
            next' (chains s' (last (ds @ ps @ arena_links (pool s)))) = None) \<and>
         length (ps @ arena_links (pool s)) =
           length ps + (d_end (pool s) - d_last (pool s)) div sizeof_ngx_chain_t \<and>
         map (\<lambda>c. buf (chains s' c)) (ps @ arena_links (pool s)) =
           take (length (ps @ arena_links (pool s))) (map (\<lambda>c. buf (chains s c)) is) \<and>
         set (ps @ arena_links (pool s)) \<inter> set (ds @ is) = {} \<and>
         (\<forall>a\<in>set ds. buf (chains s' a) = buf (chains s a)) \<and>
         bufs s' = bufs s \<and>
         chain (pool s') = None \<and> d_end (pool s') < d_last (pool s') + sizeof_ngx_chain_t)"
proof -
  from add_copy_run [OF assms] obtain rc c' s' ns where
    r: "ngx_chain_add_copy s chain_v in' = Some (rc, c', s')"
       "is_chain s' c' (ds @ ns)"
       "map (\<lambda>c. buf (chains s' c)) ns = take (length ns) (map (\<lambda>c. buf (chains s c)) is)"
       "rc = NGX_OK \<and> length ns = length is \<or>
        rc = NGX_ERROR \<and> length ns < length is \<and> chain (pool s') = None \<and>
        d_end (pool s') < d_last (pool s') + sizeof_ngx_chain_t"
       "rc = NGX_OK \<longleftrightarrow>
         length is \<le> length ps + (d_end (pool s) - d_last (pool s)) div sizeof_ngx_chain_t"
       "\<forall>a\<in>set ds. buf (chains s' a) = buf (chains s a)"
       "set ns \<inter> set (ds @ is) = {}" "bufs s' = bufs s"
       "ns = take (length is) (ps @ arena_links (pool s))"
    by blast
  let ?all = "ps @ arena_links (pool s)"
  have len: "length ?all = length ps + (d_end (pool s) - d_last (pool s)) div sizeof_ngx_chain_t"
    by (simp add: arena_links_def)
  have ne: "NGX_OK \<noteq> NGX_ERROR" by (simp add: NGX_OK_def NGX_ERROR_def)
  from r(4) have c1: "rc = NGX_OK \<or> rc = NGX_ERROR" by blast
  from r(4,5) ne have c2: "rc = NGX_ERROR \<longleftrightarrow>
         length ps + (d_end (pool s) - d_last (pool s)) div sizeof_ngx_chain_t < length is"
    by auto
  have c3: "rc = NGX_ERROR \<longrightarrow>
         is_chain s' c' (ds @ ?all) \<and>
         (ds @ ?all \<noteq> [] \<longrightarrow> next' (chains s' (last (ds @ ?all))) = None) \<and>
         length ?all = length ps + (d_end (pool s) - d_last (pool s)) div sizeof_ngx_chain_t \<and>
         map (\<lambda>c. buf (chains s' c)) ?all = take (length ?all) (map (\<lambda>c. buf (chains s c)) is) \<and>
         set ?all \<inter> set (ds @ is) = {} \<and>
         (\<forall>a\<in>set ds. buf (chains s' a) = buf (chains s a)) \<and>
         bufs s' = bufs s \<and>
         chain (pool s') = None \<and> d_end (pool s') < d_last (pool s') + sizeof_ngx_chain_t"
  proof
    assume err: "rc = NGX_ERROR"
    with c2 len have "length ?all < length is" by simp
    with r(9) have ns: "ns = ?all" by simp
    have tl: "ds @ ?all \<noteq> [] \<longrightarrow> next' (chains s' (last (ds @ ?all))) = None"
    proof
      assume n: "ds @ ?all \<noteq> []"
      then have "last (ds @ ?all) = (ds @ ?all) ! (length (ds @ ?all) - 1)" by (rule last_conv_nth)
      with is_chain_next [OF r(2) [unfolded ns], of "length (ds @ ?all) - 1"] n
      show "next' (chains s' (last (ds @ ?all))) = None" by simp
    qed
    from r(4) ne err have "chain (pool s') = None \<and>
         d_end (pool s') < d_last (pool s') + sizeof_ngx_chain_t"
      by auto
    with r(2,3,6,7,8) tl len show "is_chain s' c' (ds @ ?all) \<and>
         (ds @ ?all \<noteq> [] \<longrightarrow> next' (chains s' (last (ds @ ?all))) = None) \<and>
         length ?all = length ps + (d_end (pool s) - d_last (pool s)) div sizeof_ngx_chain_t \<and>
         map (\<lambda>c. buf (chains s' c)) ?all = take (length ?all) (map (\<lambda>c. buf (chains s c)) is) \<and>
         set ?all \<inter> set (ds @ is) = {} \<and>
         (\<forall>a\<in>set ds. buf (chains s' a) = buf (chains s a)) \<and>
         bufs s' = bufs s \<and>
         chain (pool s') = None \<and> d_end (pool s') < d_last (pool s') + sizeof_ngx_chain_t"
      unfolding ns by blast
  qed
  from r(1) c1 c2 c3 show ?thesis by blast
qed

text \<open>
  The chains of \<open>mem_copy_full\<close>: the first source link is copied into the link 64 from the
  pool's free list, the second into the link 4096 from the arena, and the allocation for the
  third fails.
\<close>

theorem add_copy_failure_keeps_chain_witness:
  "is_chain mem_copy_full (Some 16) [16] \<and> is_chain mem_copy_full (Some 32) [32, 48, 80] \<and>
   is_chain mem_copy_full (chain (pool mem_copy_full)) [64] \<and>
   distinct ([16] @ [32, 48, 80] @ [64 :: addr]) \<and>
   d_last (pool mem_copy_full) = 4096 \<and> d_end (pool mem_copy_full) = 4120 \<and>
   arena_links (pool mem_copy_full) = [4096] \<and>
   (case ngx_chain_add_copy mem_copy_full (Some 16) (Some 32) of
      None \<Rightarrow> False
    | Some (rc, c', s') \<Rightarrow> rc = NGX_ERROR \<and> c' = Some 16 \<and>
        is_chain s' c' [16, 64, 4096] \<and> next' (chains s' 4096) = None \<and>
        buf (chains s' 16) = Some 200 \<and>
        buf (chains s' 64) = buf (chains mem_copy_full 32) \<and>
        buf (chains s' 4096) = buf (chains mem_copy_full 48))"
proof -
  have h1: "is_chain mem_copy_full (Some 16) [16]"
    and h2: "is_chain mem_copy_full (Some 32) [32, 48, 80]"
    and h3: "is_chain mem_copy_full (chain (pool mem_copy_full)) [64]"
    by (simp_all add: mem_copy_full_def mem0_def)
  have h4: "distinct ([16] @ [32, 48, 80] @ [64 :: addr])" by simp
  have h5: "\<forall>a\<in>set ([16] @ [32, 48, 80] @ [64]). a < d_last (pool mem_copy_full)"
    and h6: "d_last (pool mem_copy_full) = 4096" "d_end (pool mem_copy_full) = 4120"
    by (simp_all add: mem_copy_full_def mem0_def)
  have h7: "arena_links (pool mem_copy_full) = [4096]"
    by (simp add: arena_links_def sizeof_ngx_chain_t_def mem_copy_full_def mem0_def)
  have a: "case ngx_chain_add_copy mem_copy_full (Some 16) (Some 32) of
      None \<Rightarrow> False
    | Some (rc, c', s') \<Rightarrow> rc = NGX_ERROR \<and> c' = Some 16 \<and>
        is_chain s' c' [16, 64, 4096] \<and> next' (chains s' 4096) = None \<and>
        buf (chains s' 16) = Some 200 \<and>
        buf (chains s' 64) = buf (chains mem_copy_full 32) \<and>
        buf (chains s' 4096) = buf (chains mem_copy_full 48)"
    using add_copy_failure_keeps_chain [OF h1 h2 h3 h4 h5]
    by (simp add: ngx_chain_add_copy_def add_copy_end.simps add_copy_loop.simps store_ll_def
        ngx_alloc_chain_link_def ngx_palloc_def sizeof_ngx_chain_t_def Let_def
        mem_copy_full_def mem0_def)
  from h1 h2 h3 h4 h6 h7 a show ?thesis by blast
qed

section \<open>Pushing onto the segmented list\<close>

lemma list_inv_ne: "list_inv s l ps \<Longrightarrow> ps \<noteq> []"
  by (cases ps) (auto simp: list_inv_def)

lemma list_slots_cong:
  assumes "\<And>p. p \<in> set ps \<Longrightarrow> elts (parts s' p) = elts (parts s p) \<and> nelts (parts s' p) = nelts (parts s p)"
    and "size_l l' = size_l l"
  shows "list_slots s' l' ps = list_slots s l ps"
proof -
  have m: "map (part_slots s' l') ps = map (part_slots s l) ps"
    by (rule map_cong) (simp_all add: part_slots_def assms split: option.split)
  show ?thesis unfolding list_slots_def m by (rule refl)
qed

lemma list_slots_snoc: "list_slots s l (ps @ [p]) = list_slots s l ps @ part_slots s l p"
  by (simp add: list_slots_def)

lemma list_push_slot_run:
  assumes e: "elts (parts s la) = Some e" and n: "nelts (parts s la) < nalloc l" and b: "nalloc l < 2 ^ 64"
  shows "list_push_slot s l la =
     Some (Some (e + (size_l l * nelts (parts s la)) mod 2 ^ 64), l,
           s\<lparr>parts := (parts s)(la := (parts s la)\<lparr>nelts := nelts (parts s la) + 1\<rparr>)\<rparr>)"
proof -
  from n b have "nelts (parts s la) + 1 < 2 ^ 64" by simp
  then have "(nelts (parts s la) + 1) mod 2 ^ 64 = nelts (parts s la) + 1" by simp
  with e show ?thesis by (simp add: list_push_slot_def)
qed

lemma part_slots_push:
  assumes "elts (parts s la) = Some e"
  shows "part_slots (s\<lparr>parts := (parts s)(la := (parts s la)\<lparr>nelts := nelts (parts s la) + 1\<rparr>)\<rparr>) l la =
     part_slots s l la @ [e + (size_l l * nelts (parts s la)) mod 2 ^ 64]"
  using assms by (simp add: part_slots_def)

lemma list_inv_frame:
  assumes "list_inv s l ps"
    and "\<And>p. p \<in> set ps \<Longrightarrow> next_p (parts s' p) = next_p (parts s p) \<and>
           elts (parts s' p) = elts (parts s p) \<and> nelts (parts s' p) = nelts (parts s p)"
    and "d_last (pool s) \<le> d_last (pool s')" and "d_end (pool s') = d_end (pool s)"
  shows "list_inv s' l ps"
proof -
  have "chain_seg (\<lambda>a. next_p (parts s' a)) (Some (part l)) ps None =
        chain_seg (\<lambda>a. next_p (parts s a)) (Some (part l)) ps None"
    by (rule chain_seg_cong) (simp add: assms(2))
  with assms show ?thesis by (fastforce simp: list_inv_def)
qed

lemma list_push_spare:
  assumes inv: "list_inv s l ps" and sp: "nelts (parts s (last ps)) < nalloc l"
  shows "\<exists>e0 s'. elts (parts s (last ps)) = Some e0 \<and>
     ngx_list_push s l = Some (Some (e0 + (size_l l * nelts (parts s (last ps))) mod 2 ^ 64), l, s') \<and>
     list_inv s' l ps \<and>
     list_slots s' l ps = list_slots s l ps @ [e0 + (size_l l * nelts (parts s (last ps))) mod 2 ^ 64] \<and>
     nelts (parts s' (last ps)) = nelts (parts s (last ps)) + 1"
proof -
  let ?la = "last ps"
  let ?s' = "s\<lparr>parts := (parts s)(?la := (parts s ?la)\<lparr>nelts := nelts (parts s ?la) + 1\<rparr>)\<rparr>"
  from inv have ne: "ps \<noteq> []" by (rule list_inv_ne)
  then have la: "?la \<in> set ps" by simp
  from inv have lp: "last_p l = Some ?la" and b: "nalloc l < 2 ^ 64"
    and seg: "chain_seg (\<lambda>a. next_p (parts s a)) (Some (part l)) ps None"
    by (simp_all add: list_inv_def)
  from inv la obtain e0 where e0: "elts (parts s ?la) = Some e0"
    by (auto simp: list_inv_def)
  let ?e = "e0 + (size_l l * nelts (parts s ?la)) mod 2 ^ 64"
  have push: "ngx_list_push s l = Some (Some ?e, l, ?s')"
    using sp list_push_slot_run [OF e0 sp b] by (simp add: ngx_list_push_def lp)
  have inv': "list_inv ?s' l ps"
    unfolding list_inv_def
  proof (intro conjI ballI)
    have "chain_seg (\<lambda>a. next_p (parts ?s' a)) (Some (part l)) ps None =
          chain_seg (\<lambda>a. next_p (parts s a)) (Some (part l)) ps None"
      by (rule chain_seg_cong) simp
    with seg show "chain_seg (\<lambda>a. next_p (parts ?s' a)) (Some (part l)) ps None" by simp
  qed (use inv sp in \<open>auto simp: list_inv_def\<close>)
  from seg have d: "distinct ps" by (rule chain_seg_distinct)
  from ne have ps: "ps = butlast ps @ [?la]" by simp
  with d have nl: "?la \<notin> set (butlast ps)"
    by (metis distinct_append distinct.simps(2) disjoint_iff list.set_intros(1) not_distinct_conv_prefix)
  have "list_slots ?s' l (butlast ps) = list_slots s l (butlast ps)"
    by (rule list_slots_cong) (use nl in auto)
  then have "list_slots ?s' l (butlast ps @ [?la]) = list_slots s l (butlast ps @ [?la]) @ [?e]"
    unfolding list_slots_snoc part_slots_push [OF e0] by simp
  with ps have slots: "list_slots ?s' l ps = list_slots s l ps @ [?e]" by simp
  from e0 push inv' slots show ?thesis by auto
qed

lemma list_push_full:
  assumes inv: "list_inv s l ps" and full: "nelts (parts s (last ps)) = nalloc l"
    and pos: "0 < nalloc l"
  shows "if d_last (pool s) + sizeof_ngx_list_part_t + (nalloc l * size_l l) mod 2 ^ 64 \<le> d_end (pool s)
         then \<exists>s'. ngx_list_push s l =
                Some (Some (d_last (pool s) + sizeof_ngx_list_part_t),
                      l\<lparr>last_p := Some (d_last (pool s))\<rparr>, s') \<and>
              d_last (pool s) \<notin> set ps \<and>
              next_p (parts s' (last ps)) = Some (d_last (pool s)) \<and>
              list_inv s' (l\<lparr>last_p := Some (d_last (pool s))\<rparr>) (ps @ [d_last (pool s)]) \<and>
              list_slots s' (l\<lparr>last_p := Some (d_last (pool s))\<rparr>) (ps @ [d_last (pool s)]) =
                list_slots s l ps @ [d_last (pool s) + sizeof_ngx_list_part_t] \<and>
              elts (parts s' (d_last (pool s))) = Some (d_last (pool s) + sizeof_ngx_list_part_t) \<and>
              nelts (parts s' (d_last (pool s))) = 1 \<and>
              (\<forall>p\<in>set ps. elts (parts s' p) = elts (parts s p) \<and> nelts (parts s' p) = nelts (parts s p))
         else \<exists>s'. ngx_list_push s l = Some (None, l, s') \<and> list_inv s' l ps \<and>
              list_slots s' l ps = list_slots s l ps \<and>
              (\<forall>p\<in>set ps. parts s' p = parts s p)"
proof -
  let ?la = "last ps"
  let ?nx = "\<lambda>a. next_p (parts s a)"
  from inv have ne: "ps \<noteq> []" by (rule list_inv_ne)
  then have la: "?la \<in> set ps" by simp
  from inv have lp: "last_p l = Some ?la" and b: "nalloc l < 2 ^ 64"
    and seg: "chain_seg ?nx (Some (part l)) ps None"
    and fresh: "\<forall>p\<in>set ps. p < d_last (pool s) \<or> d_end (pool s) \<le> p"
    by (simp_all add: list_inv_def)
  from seg have d: "distinct ps" by (rule chain_seg_distinct)
  define m where "m = (nalloc l * size_l l) mod 2 ^ 64"
  show ?thesis
  proof (cases "d_last (pool s) + sizeof_ngx_list_part_t \<le> d_end (pool s)")
    case False
    then have "ngx_list_push s l = Some (None, l, s\<lparr>pool := pool s\<rparr>)"
      by (simp add: ngx_list_push_def lp full ngx_palloc_def)
    moreover have "list_inv (s\<lparr>pool := pool s\<rparr>) l ps"
      by (rule list_inv_frame [OF inv]) simp_all
    moreover have "list_slots (s\<lparr>pool := pool s\<rparr>) l ps = list_slots s l ps"
      by (rule list_slots_cong) simp_all
    moreover have "\<forall>p\<in>set ps. parts (s\<lparr>pool := pool s\<rparr>) p = parts s p" by simp
    ultimately have "\<exists>s'. ngx_list_push s l = Some (None, l, s') \<and> list_inv s' l ps \<and>
              list_slots s' l ps = list_slots s l ps \<and> (\<forall>p\<in>set ps. parts s' p = parts s p)"
      by blast
    with False show ?thesis by (simp add: m_def)
  next
    case room: True
    define np where "np = d_last (pool s)"
    define p1 where "p1 = (pool s)\<lparr>d_last := d_last (pool s) + sizeof_ngx_list_part_t\<rparr>"
    have a1: "ngx_palloc (pool s) sizeof_ngx_list_part_t = (Some np, p1)"
      using room by (simp add: ngx_palloc_def np_def p1_def)
    have np_ps: "np \<notin> set ps"
    proof
      assume "np \<in> set ps"
      with fresh have "np < d_last (pool s) \<or> d_end (pool s) \<le> np" by blast
      with room show False by (simp add: np_def sizeof_ngx_list_part_t_def)
    qed
    have both: "d_last (pool s) + sizeof_ngx_list_part_t + m \<le> d_end (pool s) \<longleftrightarrow>
        d_last p1 + m \<le> d_end p1"
      by (simp add: p1_def)
    show ?thesis
    proof (cases "d_last p1 + m \<le> d_end p1")
      case False
      define s' where "s' = s\<lparr>pool := p1, parts := (parts s)(np := (parts s np)\<lparr>elts := None\<rparr>)\<rparr>"
      from False have a2: "ngx_palloc p1 m = (None, p1)"
        by (simp add: ngx_palloc_def)
      have "ngx_list_push s l = Some (None, l, s')"
        by (simp only: ngx_list_push_def lp option.case full simp_thms if_True a1 prod.case
              m_def [symmetric] a2 s'_def)
      moreover have "list_inv s' l ps"
        by (rule list_inv_frame [OF inv]) (use np_ps in \<open>auto simp: s'_def p1_def\<close>)
      moreover have "list_slots s' l ps = list_slots s l ps"
        by (rule list_slots_cong) (use np_ps in \<open>auto simp: s'_def\<close>)
      moreover have "\<forall>p\<in>set ps. parts s' p = parts s p"
        using np_ps by (auto simp: s'_def)
      ultimately have "\<exists>s'. ngx_list_push s l = Some (None, l, s') \<and> list_inv s' l ps \<and>
              list_slots s' l ps = list_slots s l ps \<and> (\<forall>p\<in>set ps. parts s' p = parts s p)"
        by blast
      with False both show ?thesis unfolding m_def by simp
    next
      case True
      define e where "e = d_last p1"
      define p2 where "p2 = p1\<lparr>d_last := d_last p1 + m\<rparr>"
      define s1 where "s1 = s\<lparr>pool := p2,
          parts := (parts s)(np := (parts s np)\<lparr>elts := Some e, nelts := 0, next_p := None\<rparr>)\<rparr>"
      define s2 where "s2 = s1\<lparr>parts := (parts s1)(?la := (parts s1 ?la)\<lparr>next_p := Some np\<rparr>)\<rparr>"
      define l2 where "l2 = l\<lparr>last_p := Some np\<rparr>"
      define s' where "s' = s2\<lparr>parts := (parts s2)(np := (parts s2 np)\<lparr>nelts := nelts (parts s2 np) + 1\<rparr>)\<rparr>"
      have e_np: "e = np + sizeof_ngx_list_part_t" by (simp add: e_def p1_def np_def)
      have a2: "ngx_palloc p1 m = (Some e, p2)"
        using True by (simp add: ngx_palloc_def e_def p2_def)
      have la_np: "?la \<noteq> np" using la np_ps by auto
      have e2: "elts (parts s2 np) = Some e" and n2: "nelts (parts s2 np) = 0"
        using la_np by (simp_all add: s2_def s1_def)
      have n2': "nelts (parts s2 np) < nalloc l2" using pos by (simp add: n2 l2_def)
      have b2: "nalloc l2 < 2 ^ 64" using b by (simp add: l2_def)
      have "list_push_slot s2 l2 np = Some (Some (e + (size_l l2 * nelts (parts s2 np)) mod 2 ^ 64), l2, s')"
        unfolding s'_def by (rule list_push_slot_run [OF e2 n2' b2])
      then have slot: "list_push_slot s2 l2 np = Some (Some e, l2, s')"
        by (simp add: n2)
      have push: "ngx_list_push s l = Some (Some e, l2, s')"
        by (simp only: ngx_list_push_def lp option.case full simp_thms if_True a1 prod.case
              m_def [symmetric] a2 Let_def s1_def [symmetric] s2_def [symmetric]
              l2_def [symmetric] slot)
      \<comment> \<open>the parts after the push\<close>
      have old: "\<And>p. p \<in> set ps \<Longrightarrow>
          elts (parts s' p) = elts (parts s p) \<and> nelts (parts s' p) = nelts (parts s p)"
        using np_ps by (auto simp: s'_def s2_def s1_def)
      have new: "elts (parts s' np) = Some e" "nelts (parts s' np) = 1" "next_p (parts s' np) = None"
        using la_np by (simp_all add: s'_def s2_def s1_def)
      have tail: "next_p (parts s' ?la) = Some np"
        using la_np by (simp add: s'_def s2_def s1_def)
      have nx': "(\<lambda>a. next_p (parts s' a)) = (?nx(?la := Some np))(np := None)"
        using la_np by (auto simp: s'_def s2_def s1_def fun_eq_iff)
      have "chain_seg (?nx(?la := Some np)) (Some (part l)) ps (Some np)"
        using seg ne d by (rule chain_seg_redirect)
      then have "chain_seg ((?nx(?la := Some np))(np := None)) (Some (part l)) ps (Some np)"
        using np_ps by (simp add: chain_seg_upd)
      then have seg': "chain_seg (\<lambda>a. next_p (parts s' a)) (Some (part l2)) (ps @ [np]) None"
        unfolding nx' chain_seg_append by (auto simp: l2_def)
      have pl: "d_last (pool s') = d_last (pool s) + sizeof_ngx_list_part_t + m"
        "d_end (pool s') = d_end (pool s)"
        by (simp_all add: s'_def s2_def s1_def p2_def p1_def)
      have hdr: "last_p l2 = Some (last (ps @ [np]))"
        by (simp add: l2_def)
      have all: "\<forall>p\<in>set (ps @ [np]). nelts (parts s' p) \<le> nalloc l2 \<and> elts (parts s' p) \<noteq> None \<and>
                   (p < d_last (pool s') \<or> d_end (pool s') \<le> p)"
      proof
        fix p assume "p \<in> set (ps @ [np])"
        then consider "p \<in> set ps" | "p = np" by auto
        then show "nelts (parts s' p) \<le> nalloc l2 \<and> elts (parts s' p) \<noteq> None \<and>
                   (p < d_last (pool s') \<or> d_end (pool s') \<le> p)"
        proof cases
          case 1
          with inv have "nelts (parts s p) \<le> nalloc l \<and> elts (parts s p) \<noteq> None \<and>
                   (p < d_last (pool s) \<or> d_end (pool s) \<le> p)"
            by (simp add: list_inv_def)
          with old [OF 1] show ?thesis by (auto simp: l2_def pl)
        next
          case 2
          with new pos show ?thesis
            by (simp add: l2_def pl np_def sizeof_ngx_list_part_t_def)
        qed
      qed
      from seg' hdr b2 all have inv': "list_inv s' l2 (ps @ [np])"
        unfolding list_inv_def by blast
      have "list_slots s' l2 ps = list_slots s l ps"
        by (rule list_slots_cong) (simp_all add: old l2_def)
      moreover have "part_slots s' l2 np = [e]"
        by (simp add: part_slots_def new)
      ultimately have slots: "list_slots s' l2 (ps @ [np]) = list_slots s l ps @ [e]"
        by (simp add: list_slots_snoc)
      from push np_ps tail inv' slots new(1,2) old
      have "\<exists>s'. ngx_list_push s l = Some (Some e, l2, s') \<and> np \<notin> set ps \<and>
              next_p (parts s' (last ps)) = Some np \<and>
              list_inv s' l2 (ps @ [np]) \<and>
              list_slots s' l2 (ps @ [np]) = list_slots s l ps @ [e] \<and>
              elts (parts s' np) = Some e \<and> nelts (parts s' np) = 1 \<and>
              (\<forall>p\<in>set ps. elts (parts s' p) = elts (parts s p) \<and> nelts (parts s' p) = nelts (parts s p))"
        by blast
      with True both show ?thesis
        unfolding m_def l2_def e_np np_def by simp
    qed
  qed
qed

text \<open>
  C9, as the claim states it, fails for a list whose per-Part capacity is zero.  The list
  of \<open>mem_list_zero\<close> satisfies the invariant: one Part, the tail, with the used-count 0,
  which is the capacity.  Its tail counts as full, so a push links the new Part 4096 after it
  and returns that Part's first slot: the new tail has the used-count 1, above the capacity
  0, and the invariant is broken.
\<close>

theorem list_push_zero_capacity:
  "list_inv mem_list_zero list_zero [100] \<and>
   (case ngx_list_push mem_list_zero list_zero of
      None \<Rightarrow> False
    | Some (r, l', s') \<Rightarrow> r = Some 4120 \<and> l' = list_zero\<lparr>last_p := Some 4096\<rparr> \<and>
        next_p (parts s' 100) = Some 4096 \<and> next_p (parts s' 4096) = None \<and>
        nalloc l' = 0 \<and> nelts (parts s' 4096) = 1 \<and>
        \<not> nelts (parts s' 4096) \<le> nalloc l' \<and> \<not> list_inv s' l' [100, 4096])"
  by (simp add: list_inv_def ngx_list_push_def list_push_slot_def ngx_palloc_def
        sizeof_ngx_list_part_t_def mem_list_zero_def list_zero_def mem0_def)

text \<open>
  C9, amended: the per-Part capacity is positive.  In a state that satisfies the invariant
  \<open>list_inv\<close>, \<^verbatim>\<open>ngx_list_push\<close> returns, and the invariant holds afterwards:
  used-counts within the capacity, the Parts a null-terminated chain ending in the tail.  A
  push that returns a slot appends exactly that slot to the sequence of slots that iteration
  visits, the earlier slots staying in place and order.

  With spare capacity in the tail the slot is the tail's next free one and the tail's
  used-count grows by one.  On a full tail, if the arena has room for a Part and its element
  block, the push takes both from the arena, links the new Part after the tail and makes it
  the tail; the slot is the first of the new block; the new Part's used-count, set to zero,
  is one after the push has taken this slot, and the other Parts keep their blocks and
  counts.  On a full tail with no such room the push returns \<^verbatim>\<open>NULL\<close> and leaves the
  header and every Part of the list as they were.
\<close>

theorem list_push_preserves:
  assumes "list_inv s l ps" and "0 < nalloc l"
  shows "\<exists>r l' s'. ngx_list_push s l = Some (r, l', s') \<and>
     (if nelts (parts s (last ps)) < nalloc l then
        (case elts (parts s (last ps)) of
           None \<Rightarrow> False
         | Some e0 \<Rightarrow>
             r = Some (e0 + (size_l l * nelts (parts s (last ps))) mod 2 ^ 64) \<and>
             list_slots s' l ps =
               list_slots s l ps @ [e0 + (size_l l * nelts (parts s (last ps))) mod 2 ^ 64]) \<and>
        l' = l \<and> list_inv s' l ps \<and>
        nelts (parts s' (last ps)) = nelts (parts s (last ps)) + 1
      else if d_last (pool s) + sizeof_ngx_list_part_t + (nalloc l * size_l l) mod 2 ^ 64
                \<le> d_end (pool s) then
        r = Some (d_last (pool s) + sizeof_ngx_list_part_t) \<and>
        l' = l\<lparr>last_p := Some (d_last (pool s))\<rparr> \<and>
        d_last (pool s) \<notin> set ps \<and>
        next_p (parts s' (last ps)) = Some (d_last (pool s)) \<and>
        list_inv s' l' (ps @ [d_last (pool s)]) \<and>
        list_slots s' l' (ps @ [d_last (pool s)]) =
          list_slots s l ps @ [d_last (pool s) + sizeof_ngx_list_part_t] \<and>
        elts (parts s' (d_last (pool s))) = Some (d_last (pool s) + sizeof_ngx_list_part_t) \<and>
        nelts (parts s' (d_last (pool s))) = 1 \<and>
        (\<forall>p\<in>set ps. elts (parts s' p) = elts (parts s p) \<and>
                     nelts (parts s' p) = nelts (parts s p))
      else
        r = None \<and> l' = l \<and> list_inv s' l ps \<and> list_slots s' l ps = list_slots s l ps \<and>
        (\<forall>p\<in>set ps. parts s' p = parts s p))"
proof (cases "nelts (parts s (last ps)) < nalloc l")
  case True
  from list_push_spare [OF assms(1) True] obtain e0 s' where
    r: "elts (parts s (last ps)) = Some e0"
       "ngx_list_push s l = Some (Some (e0 + (size_l l * nelts (parts s (last ps))) mod 2 ^ 64), l, s')"
       "list_inv s' l ps"
       "list_slots s' l ps = list_slots s l ps @ [e0 + (size_l l * nelts (parts s (last ps))) mod 2 ^ 64]"
       "nelts (parts s' (last ps)) = nelts (parts s (last ps)) + 1"
    by blast
  show ?thesis
    apply (rule exI [of _ "Some (e0 + (size_l l * nelts (parts s (last ps))) mod 2 ^ 64)"])
    apply (rule exI [of _ l], rule exI [of _ s'])
    using True r by simp
next
  case False
  from assms(1) have "ps \<noteq> []" by (rule list_inv_ne)
  then have "last ps \<in> set ps" by simp
  with assms(1) have "nelts (parts s (last ps)) \<le> nalloc l" by (simp add: list_inv_def)
  with False have full: "nelts (parts s (last ps)) = nalloc l" by simp
  note f = list_push_full [OF assms(1) full assms(2)]
  show ?thesis
  proof (cases "d_last (pool s) + sizeof_ngx_list_part_t + (nalloc l * size_l l) mod 2 ^ 64
                  \<le> d_end (pool s)")
    case room: True
    with f obtain s' where
      r: "ngx_list_push s l =
            Some (Some (d_last (pool s) + sizeof_ngx_list_part_t), l\<lparr>last_p := Some (d_last (pool s))\<rparr>, s')"
         "d_last (pool s) \<notin> set ps"
         "next_p (parts s' (last ps)) = Some (d_last (pool s))"
         "list_inv s' (l\<lparr>last_p := Some (d_last (pool s))\<rparr>) (ps @ [d_last (pool s)])"
         "list_slots s' (l\<lparr>last_p := Some (d_last (pool s))\<rparr>) (ps @ [d_last (pool s)]) =
            list_slots s l ps @ [d_last (pool s) + sizeof_ngx_list_part_t]"
         "elts (parts s' (d_last (pool s))) = Some (d_last (pool s) + sizeof_ngx_list_part_t)"
         "nelts (parts s' (d_last (pool s))) = 1"
         "\<forall>p\<in>set ps. elts (parts s' p) = elts (parts s p) \<and> nelts (parts s' p) = nelts (parts s p)"
      by (simp only: if_True) blast
    show ?thesis
      apply (rule exI [of _ "Some (d_last (pool s) + sizeof_ngx_list_part_t)"])
      apply (rule exI [of _ "l\<lparr>last_p := Some (d_last (pool s))\<rparr>"], rule exI [of _ s'])
      using False room r by simp
  next
    case tight: False
    with f obtain s' where
      r: "ngx_list_push s l = Some (None, l, s')" "list_inv s' l ps"
         "list_slots s' l ps = list_slots s l ps" "\<forall>p\<in>set ps. parts s' p = parts s p"
      by (simp only: if_False) blast
    show ?thesis
      apply (rule exI [of _ None], rule exI [of _ l], rule exI [of _ s'])
      using False tight r by simp
  qed
qed

text \<open>
  A push into the spare slot of \<open>mem_list\<close>; a push on the full tail of
  \<open>mem_list_full\<close>, which takes the Part 4096 and the element block 4120 from the arena;
  and a push on the full tail of \<open>mem_list_tight\<close>, where the arena has room for the Part
  but not for its block.
\<close>

theorem list_push_preserves_witness:
  "list_inv mem_list list0 [100] \<and> 0 < nalloc list0 \<and> list_slots mem_list list0 [100] = [1000] \<and>
   (case ngx_list_push mem_list list0 of
      None \<Rightarrow> False
    | Some (r, l', s') \<Rightarrow> r = Some 1008 \<and> l' = list0 \<and> nelts (parts s' 100) = 2 \<and>
        list_inv s' l' [100] \<and> list_slots s' l' [100] = [1000, 1008]) \<and>
   list_inv mem_list_full list0 [100] \<and> list_slots mem_list_full list0 [100] = [1000, 1008] \<and>
   (case ngx_list_push mem_list_full list0 of
      None \<Rightarrow> False
    | Some (r, l', s') \<Rightarrow> r = Some 4120 \<and> l' = list0\<lparr>last_p := Some 4096\<rparr> \<and>
        next_p (parts s' 100) = Some 4096 \<and> nelts (parts s' 100) = 2 \<and>
        nelts (parts s' 4096) = 1 \<and>
        list_inv s' l' [100, 4096] \<and> list_slots s' l' [100, 4096] = [1000, 1008, 4120]) \<and>
   list_inv mem_list_tight list0 [100] \<and>
   (case ngx_list_push mem_list_tight list0 of
      None \<Rightarrow> False
    | Some (r, l', s') \<Rightarrow> r = None \<and> l' = list0 \<and> parts s' 100 = parts mem_list_tight 100 \<and>
        list_inv s' l' [100] \<and> list_slots s' l' [100] = [1000, 1008])"
proof -
  have h1: "list_inv mem_list list0 [100]" and h2: "list_inv mem_list_full list0 [100]"
    and h3: "list_inv mem_list_tight list0 [100]"
    by (simp_all add: list_inv_def mem_list_def mem_list_full_def mem_list_tight_def list0_def mem0_def)
  have p: "0 < nalloc list0" by (simp add: list0_def)
  have s1: "list_slots mem_list list0 [100] = [1000]"
    by (simp add: list_slots_def part_slots_def mem_list_def list0_def mem0_def)
  have s2: "list_slots mem_list_full list0 [100] = [1000, 1008]"
    by (simp add: list_slots_def part_slots_def mem_list_full_def list0_def mem0_def upt_rec)
  have s3: "list_slots mem_list_tight list0 [100] = [1000, 1008]"
    by (simp add: list_slots_def part_slots_def mem_list_tight_def list0_def mem0_def upt_rec)
  have a: "case ngx_list_push mem_list list0 of
      None \<Rightarrow> False
    | Some (r, l', s') \<Rightarrow> r = Some 1008 \<and> l' = list0 \<and> nelts (parts s' 100) = 2 \<and>
        list_inv s' l' [100] \<and> list_slots s' l' [100] = [1000, 1008]"
    using list_push_preserves [OF h1 p] s1
    by (auto simp: ngx_list_push_def list_push_slot_def mem_list_def list0_def mem0_def)
  have b: "case ngx_list_push mem_list_full list0 of
      None \<Rightarrow> False
    | Some (r, l', s') \<Rightarrow> r = Some 4120 \<and> l' = list0\<lparr>last_p := Some 4096\<rparr> \<and>
        next_p (parts s' 100) = Some 4096 \<and> nelts (parts s' 100) = 2 \<and>
        nelts (parts s' 4096) = 1 \<and>
        list_inv s' l' [100, 4096] \<and> list_slots s' l' [100, 4096] = [1000, 1008, 4120]"
    using list_push_preserves [OF h2 p] s2
    by (auto simp: ngx_list_push_def list_push_slot_def ngx_palloc_def sizeof_ngx_list_part_t_def
          mem_list_full_def list0_def mem0_def)
  have c: "case ngx_list_push mem_list_tight list0 of
      None \<Rightarrow> False
    | Some (r, l', s') \<Rightarrow> r = None \<and> l' = list0 \<and> parts s' 100 = parts mem_list_tight 100 \<and>
        list_inv s' l' [100] \<and> list_slots s' l' [100] = [1000, 1008]"
    using list_push_preserves [OF h3 p] s3
    by (auto simp: ngx_list_push_def list_push_slot_def ngx_palloc_def sizeof_ngx_list_part_t_def
          mem_list_tight_def list0_def mem0_def)
  from h1 p s1 a h2 s2 b h3 c show ?thesis by blast
qed

end
